theory Spec2Isabelle
  imports Main "HOL-Library.Finite_Map"
begin

section \<open>JavaScript values\<close>

text \<open>
  The hooks of \<^verbatim>\<open>global-styles/hooks.js\<close> read and write configurations: plain data
  objects as \<^verbatim>\<open>JSON.parse\<close> builds them, plus \<^verbatim>\<open>undefined\<close>, which a write can store.
  An object is a finite map from property names to values, so that two objects are equal
  exactly when they have the same own properties with equal values, whatever the order of
  their keys. Numbers are integers. Property reads see own properties only: members
  inherited from a prototype are not part of the model, except where the source is looked
  up in the context.
\<close>

datatype jsval =
    JUndef
  | JNull
  | JBool bool
  | JNum int
  | JStr string
  | JArr "jsval list"
  | JObj "(string, jsval) fmap"

datatype failure = UnsupportedSource | SyntaxError | TypeError | OutsideModel

text \<open>\<^verbatim>\<open>!! v\<close>, \<^verbatim>\<open>v == null\<close> and \<^verbatim>\<open>a ?? b\<close>.\<close>

fun truthy :: "jsval \<Rightarrow> bool" where
  "truthy JUndef = False"
| "truthy JNull = False"
| "truthy (JBool b) = b"
| "truthy (JNum n) = (n \<noteq> 0)"
| "truthy (JStr s) = (s \<noteq> [])"
| "truthy (JArr xs) = True"
| "truthy (JObj m) = True"

fun nullish :: "jsval \<Rightarrow> bool" where
  "nullish JUndef = True"
| "nullish JNull = True"
| "nullish v = False"

definition coalesce :: "jsval \<Rightarrow> jsval \<Rightarrow> jsval" where
  "coalesce a b = (if nullish a then b else a)"

text \<open>lodash's \<^verbatim>\<open>isObject\<close> and \<^verbatim>\<open>Array.isArray\<close>.\<close>

fun isObject :: "jsval \<Rightarrow> bool" where
  "isObject (JArr xs) = True"
| "isObject (JObj m) = True"
| "isObject v = False"

fun isArray :: "jsval \<Rightarrow> bool" where
  "isArray (JArr xs) = True"
| "isArray v = False"

text \<open>A string argument that is \<^verbatim>\<open>undefined\<close> or empty is falsy.\<close>

fun given :: "string option \<Rightarrow> bool" where
  "given None = False"
| "given (Some s) = (s \<noteq> [])"

fun str_of :: "string option \<Rightarrow> string" where
  "str_of None = []"
| "str_of (Some s) = s"

subsection \<open>Property access\<close>

text \<open>
  A canonical decimal numeral (\<^verbatim>\<open>/^(?:0|[1-9]\d*)$/\<close>) names an element of an array or a
  character of a string; \<^verbatim>\<open>length\<close> is their only other own property.
\<close>

definition digit :: "char \<Rightarrow> bool" where
  "digit c = (c \<in> set ''0123456789'')"

definition reIsUint :: "string \<Rightarrow> bool" where
  "reIsUint s = (s = ''0'' \<or> (s \<noteq> [] \<and> hd s \<noteq> CHR ''0'' \<and> list_all digit s))"

definition decimal :: "string \<Rightarrow> int" where
  "decimal s = foldl (\<lambda>n c. 10 * n + (of_char c - 48)) 0 s"

definition arrayIndex :: "string \<Rightarrow> nat option" where
  "arrayIndex k = (if reIsUint k \<and> decimal k < 4294967295 then Some (nat (decimal k)) else None)"

text \<open>lodash's \<^verbatim>\<open>isIndex\<close> on a string key, with its default bound \<^verbatim>\<open>MAX_SAFE_INTEGER\<close>.\<close>

definition isIndex :: "string \<Rightarrow> bool" where
  "isIndex k = (reIsUint k \<and> decimal k < 9007199254740991)"

fun getProp :: "jsval \<Rightarrow> string \<Rightarrow> jsval" where
  "getProp (JObj m) k = (case fmlookup m k of Some v \<Rightarrow> v | None \<Rightarrow> JUndef)"
| "getProp (JArr xs) k =
     (case arrayIndex k of
        Some i \<Rightarrow> if i < length xs then xs ! i else JUndef
      | None \<Rightarrow> if k = ''length'' then JNum (int (length xs)) else JUndef)"
| "getProp (JStr s) k =
     (case arrayIndex k of
        Some i \<Rightarrow> if i < length s then JStr [s ! i] else JUndef
      | None \<Rightarrow> if k = ''length'' then JNum (int (length s)) else JUndef)"
| "getProp v k = JUndef"

text \<open>Optional chaining \<^verbatim>\<open>v?.k\<close>.\<close>

definition optprop :: "jsval \<Rightarrow> string \<Rightarrow> jsval" where
  "optprop v k = (if nullish v then JUndef else getProp v k)"

subsection \<open>lodash paths\<close>

text \<open>
  \<^verbatim>\<open>stringToPath\<close> cuts a path at its dots; the bracket notation of lodash is not
  modelled (no path of this program uses it). \<^verbatim>\<open>castPath\<close> keeps a path whole when it has
  no dot or when the object has a property of that very name (\<^verbatim>\<open>isKey\<close>).
\<close>

fun segments :: "string \<Rightarrow> string \<Rightarrow> string list" where
  "segments acc [] = [rev acc]"
| "segments acc (c # cs) =
     (if c = CHR ''.'' then rev acc # segments [] cs else segments (c # acc) cs)"

definition stringToPath :: "string \<Rightarrow> string list" where
  "stringToPath s = (if s = [] then [] else segments [] s)"

fun hasKey :: "jsval \<Rightarrow> string \<Rightarrow> bool" where
  "hasKey (JObj m) k = (k |\<in>| fmdom m)"
| "hasKey v k = False"

definition isKey :: "string \<Rightarrow> jsval \<Rightarrow> bool" where
  "isKey p obj = (CHR ''.'' \<notin> set p \<or> hasKey obj p)"

definition castPath :: "string \<Rightarrow> jsval \<Rightarrow> string list" where
  "castPath p obj = (if isKey p obj then [p] else stringToPath p)"

subsection \<open>lodash get\<close>

fun walk :: "jsval \<Rightarrow> string list \<Rightarrow> jsval" where
  "walk v [] = v"
| "walk v (k # ks) = (if nullish v then JUndef else walk (getProp v k) ks)"

definition baseGet :: "jsval \<Rightarrow> string \<Rightarrow> jsval" where
  "baseGet obj p = (let path = castPath p obj in if path = [] then JUndef else walk obj path)"

definition lodash_get :: "jsval \<Rightarrow> string \<Rightarrow> jsval" where
  "lodash_get obj p = (if nullish obj then JUndef else baseGet obj p)"

subsection \<open>lodash set\<close>

text \<open>
  \<^verbatim>\<open>set\<close> walks the path inside the object, replaces whatever is not an object on its way
  by a new array (when the next key is an index) or a new object, and assigns the value
  at the last key. Two writes leave the data of the model and end in \<open>OutsideModel\<close>:
  a property of an array that is not an index, and a key \<^verbatim>\<open>__proto__\<close>,
  \<^verbatim>\<open>constructor\<close> or \<^verbatim>\<open>prototype\<close>, which lodash writes or refuses to write
  depending on its version.
\<close>

definition protoKey :: "string \<Rightarrow> bool" where
  "protoKey k = (k = ''__proto__'' \<or> k = ''constructor'' \<or> k = ''prototype'')"

fun assignValue :: "jsval \<Rightarrow> string \<Rightarrow> jsval \<Rightarrow> failure + jsval" where
  "assignValue (JObj m) k v = Inr (JObj (fmupd k v m))"
| "assignValue (JArr xs) k v =
     (case arrayIndex k of
        Some i \<Rightarrow>
          Inr (JArr (if i < length xs then xs[i := v]
                     else xs @ replicate (i - length xs) JUndef @ [v]))
      | None \<Rightarrow> Inl OutsideModel)"
| "assignValue other k v = Inl OutsideModel"

fun baseSet :: "jsval \<Rightarrow> string list \<Rightarrow> jsval \<Rightarrow> failure + jsval" where
  "baseSet nested [] v = Inr nested"
| "baseSet nested (key # rest) v =
     (if protoKey key then Inl OutsideModel
      else if rest = [] then assignValue nested key v
      else
        let objValue = getProp nested key;
            newValue = (if isObject objValue then objValue
                        else if isIndex (hd rest) then JArr [] else JObj fmempty)
        in case assignValue nested key newValue of
             Inl e \<Rightarrow> Inl e
           | Inr _ \<Rightarrow>
               (case baseSet newValue rest v of
                  Inl e \<Rightarrow> Inl e
                | Inr child \<Rightarrow> assignValue nested key child))"

definition lodash_set :: "jsval \<Rightarrow> string \<Rightarrow> jsval \<Rightarrow> failure + jsval" where
  "lodash_set obj p v =
     (if \<not> isObject obj then Inr obj else baseSet obj (castPath p obj) v)"

subsection \<open>JSON round trip\<close>

text \<open>
  \<^verbatim>\<open>JSON.parse (JSON.stringify v)\<close>: a property whose value is \<^verbatim>\<open>undefined\<close> is left out,
  an \<^verbatim>\<open>undefined\<close> element of an array becomes \<^verbatim>\<open>null\<close>, and \<^verbatim>\<open>undefined\<close> itself
  has no JSON text, so that parsing it throws.
\<close>

primrec jsonCopy :: "jsval \<Rightarrow> jsval" where
  "jsonCopy JUndef = JUndef"
| "jsonCopy JNull = JNull"
| "jsonCopy (JBool b) = JBool b"
| "jsonCopy (JNum n) = JNum n"
| "jsonCopy (JStr s) = JStr s"
| "jsonCopy (JArr xs) = JArr (map (\<lambda>v. if v = JUndef then JNull else v) (map jsonCopy xs))"
| "jsonCopy (JObj m) = JObj (fmfilter (\<lambda>k. fmlookup m k \<noteq> Some JUndef) (fmmap jsonCopy m))"

definition deepClone :: "jsval \<Rightarrow> failure + jsval" where
  "deepClone v = (if v = JUndef then Inl SyntaxError else Inr (jsonCopy v))"

section \<open>The style context\<close>

text \<open>
  \<^verbatim>\<open>GlobalStylesContext\<close> holds the three views and \<^verbatim>\<open>setUserConfig\<close>, which applies an
  update function to the current user configuration and stores what it returns; when
  the function throws, nothing is stored. The provider derives the merged view again
  after an update: that code is not in \<^verbatim>\<open>hooks.js\<close>, and the record below keeps the view
  it was given.
\<close>

record globalStyles =
  merged :: jsval
  base :: jsval
  user :: jsval

definition setUserConfig :: "(jsval \<Rightarrow> failure + jsval) \<Rightarrow> globalStyles \<Rightarrow> failure + globalStyles" where
  "setUserConfig f ctx =
     (case f (user ctx) of Inl e \<Rightarrow> Inl e | Inr c \<Rightarrow> Inr (ctx\<lparr>user := c\<rparr>))"

text \<open>
  The object \<^verbatim>\<open>configs\<close> (the context without \<^verbatim>\<open>setUserConfig\<close>), read at a key. Besides its
  three views, the read finds the members that every object inherits: such a member (a
  function, or the prototype itself) is truthy and has no property \<^verbatim>\<open>settings\<close>, and an
  object without properties stands for it here.
\<close>

definition objectPrototype :: "string list" where
  "objectPrototype =
     [''constructor'', ''hasOwnProperty'', ''isPrototypeOf'', ''propertyIsEnumerable'',
      ''toLocaleString'', ''toString'', ''valueOf'', ''__proto__'', ''__defineGetter__'',
      ''__defineSetter__'', ''__lookupGetter__'', ''__lookupSetter__'']"

definition configs :: "globalStyles \<Rightarrow> string \<Rightarrow> jsval" where
  "configs ctx k =
     (if k = ''merged'' then merged ctx
      else if k = ''base'' then base ctx
      else if k = ''user'' then user ctx
      else if k \<in> set objectPrototype then JObj fmempty
      else JUndef)"


definition VALID_SETTINGS :: "string list" where
  "VALID_SETTINGS =
    [''appearanceTools'',
     ''useRootPaddingAwareAlignments'',
     ''border.color'',
     ''border.radius'',
     ''border.style'',
     ''border.width'',
     ''shadow.presets'',
     ''shadow.defaultPresets'',
     ''color.background'',
     ''color.custom'',
     ''color.customDuotone'',
     ''color.customGradient'',
     ''color.defaultDuotone'',
     ''color.defaultGradients'',
     ''color.defaultPalette'',
     ''color.duotone'',
     ''color.gradients'',
     ''color.link'',
     ''color.palette'',
     ''color.text'',
     ''custom'',
     ''dimensions.minHeight'',
     ''layout.contentSize'',
     ''layout.definitions'',
     ''layout.wideSize'',
     ''position.fixed'',
     ''position.sticky'',
     ''spacing.customSpacingSize'',
     ''spacing.spacingSizes'',
     ''spacing.spacingScale'',
     ''spacing.blockGap'',
     ''spacing.margin'',
     ''spacing.padding'',
     ''spacing.units'',
     ''typography.fuild'',
     ''typography.customFontSize'',
     ''typography.dropCap'',
     ''typography.fontFamilies'',
     ''typography.fontSizes'',
     ''typography.fontStyle'',
     ''typography.fontWeight'',
     ''typography.letterSpacing'',
     ''typography.lineHeight'',
     ''typography.textDecoration'',
     ''typography.textTransform'']"

section \<open>useGlobalStylesReset\<close>




section \<open>useGlobalSetting\<close>

definition appendedBlockPath :: "string option \<Rightarrow> string" where
  "appendedBlockPath blockName = (if given blockName then ''.blocks.'' @ str_of blockName else [])"

definition appendedPropertyPath :: "string option \<Rightarrow> string" where
  "appendedPropertyPath propertyPath =
     (if given propertyPath then ''.'' @ str_of propertyPath else [])"

definition contextualPath :: "string option \<Rightarrow> string option \<Rightarrow> string" where
  "contextualPath propertyPath blockName =
     ''settings'' @ appendedBlockPath blockName @ appendedPropertyPath propertyPath"

definition globalPath :: "string option \<Rightarrow> string" where
  "globalPath propertyPath = ''settings'' @ appendedPropertyPath propertyPath"

definition sourceKey :: "string \<Rightarrow> string" where
  "sourceKey source = (if source = ''all'' then ''merged'' else source)"

text \<open>
  The body of \<^verbatim>\<open>VALID_SETTINGS.forEach\<close>: \<open>resolved\<close> is its constant \<^verbatim>\<open>value\<close>, and the
  loop threads \<^verbatim>\<open>result\<close>.
\<close>

definition resolved :: "jsval \<Rightarrow> string \<Rightarrow> string \<Rightarrow> jsval" where
  "resolved configToUse abp setting =
     coalesce (lodash_get configToUse (''settings'' @ abp @ ''.'' @ setting))
              (lodash_get configToUse (''settings.'' @ setting))"

fun forEachSetting :: "jsval \<Rightarrow> string \<Rightarrow> string list \<Rightarrow> jsval \<Rightarrow> failure + jsval" where
  "forEachSetting configToUse abp [] result = Inr result"
| "forEachSetting configToUse abp (setting # rest) result =
     (let v = resolved configToUse abp setting
      in if truthy v
         then (case lodash_set result setting v of
                 Inl e \<Rightarrow> Inl e
               | Inr result' \<Rightarrow> forEachSetting configToUse abp rest result')
         else forEachSetting configToUse abp rest result)"

definition settingValue :: "globalStyles \<Rightarrow> string option \<Rightarrow> string option \<Rightarrow> string \<Rightarrow> failure + jsval" where
  "settingValue ctx propertyPath blockName source =
     (let configToUse = configs ctx (sourceKey source) in
      if \<not> truthy configToUse then Inl UnsupportedSource
      else if given propertyPath
      then Inr (coalesce (lodash_get configToUse (contextualPath propertyPath blockName))
                         (lodash_get configToUse (globalPath propertyPath)))
      else forEachSetting configToUse (appendedBlockPath blockName) VALID_SETTINGS (JObj fmempty))"

definition setSetting :: "string option \<Rightarrow> string option \<Rightarrow> jsval \<Rightarrow> globalStyles \<Rightarrow> failure + globalStyles" where
  "setSetting propertyPath blockName newValue =
     setUserConfig (\<lambda>currentConfig.
       case deepClone currentConfig of
         Inl e \<Rightarrow> Inl e
       | Inr newUserConfig \<Rightarrow>
           lodash_set newUserConfig (contextualPath propertyPath blockName) newValue)"

definition useGlobalSetting ::
  "globalStyles \<Rightarrow> string option \<Rightarrow> string option \<Rightarrow> string \<Rightarrow>
     failure + (jsval \<times> (jsval \<Rightarrow> globalStyles \<Rightarrow> failure + globalStyles))" where
  "useGlobalSetting ctx propertyPath blockName source =
     (case settingValue ctx propertyPath blockName source of
        Inl e \<Rightarrow> Inl e
      | Inr v \<Rightarrow> Inr (v, setSetting propertyPath blockName))"

section \<open>useGlobalStyle\<close>

text \<open>
  \<^verbatim>\<open>getValueFromVariable\<close> and \<^verbatim>\<open>getPresetVariableFromValue\<close> come from \<^verbatim>\<open>./utils\<close>, which
  is not among the sources: the hook takes them as parameters \<open>gv\<close> and \<open>pv\<close>.
\<close>

type_synonym decoder = "jsval \<Rightarrow> string option \<Rightarrow> jsval \<Rightarrow> jsval"
type_synonym encoder = "jsval \<Rightarrow> string option \<Rightarrow> string option \<Rightarrow> jsval \<Rightarrow> jsval"

definition appendedPath :: "string option \<Rightarrow> string" where
  "appendedPath path = (if given path then ''.'' @ str_of path else [])"

definition finalPath :: "string option \<Rightarrow> string option \<Rightarrow> string" where
  "finalPath path blockName =
     (if \<not> given blockName then ''styles'' @ appendedPath path
      else ''styles.blocks.'' @ str_of blockName @ appendedPath path)"

definition setStyle ::
  "encoder \<Rightarrow> globalStyles \<Rightarrow> string option \<Rightarrow> string option \<Rightarrow> bool \<Rightarrow> jsval \<Rightarrow>
     globalStyles \<Rightarrow> failure + globalStyles" where
  "setStyle pv ctx path blockName shouldDecodeEncode newValue =
     setUserConfig (\<lambda>currentConfig.
       case deepClone currentConfig of
         Inl e \<Rightarrow> Inl e
       | Inr newUserConfig \<Rightarrow>
           if shouldDecodeEncode
           then (if nullish (merged ctx) then Inl TypeError
                 else lodash_set newUserConfig (finalPath path blockName)
                        (pv (getProp (merged ctx) ''settings'') blockName path newValue))
           else lodash_set newUserConfig (finalPath path blockName) newValue)"

definition rawResult :: "globalStyles \<Rightarrow> string option \<Rightarrow> string option \<Rightarrow> string \<Rightarrow> failure + jsval" where
  "rawResult ctx path blockName source =
     (if source = ''all''
      then Inr (if finalPath path blockName = ''styles.css''
                then lodash_get (user ctx) (finalPath path blockName)
                else lodash_get (merged ctx) (finalPath path blockName))
      else if source = ''user'' then Inr (lodash_get (user ctx) (finalPath path blockName))
      else if source = ''base'' then Inr (lodash_get (base ctx) (finalPath path blockName))
      else Inl UnsupportedSource)"

definition styleResult ::
  "decoder \<Rightarrow> globalStyles \<Rightarrow> string option \<Rightarrow> string option \<Rightarrow> string \<Rightarrow> bool \<Rightarrow> failure + jsval" where
  "styleResult gv ctx path blockName source shouldDecodeEncode =
     (case rawResult ctx path blockName source of
        Inl e \<Rightarrow> Inl e
      | Inr raw \<Rightarrow>
          Inr (if shouldDecodeEncode
               then gv (if source = ''base'' then base ctx else merged ctx) blockName raw
               else raw))"

definition useGlobalStyle ::
  "decoder \<Rightarrow> encoder \<Rightarrow> globalStyles \<Rightarrow> string option \<Rightarrow> string option \<Rightarrow> string \<Rightarrow> bool \<Rightarrow>
     failure + (jsval \<times> (jsval \<Rightarrow> globalStyles \<Rightarrow> failure + globalStyles))" where
  "useGlobalStyle gv pv ctx path blockName source shouldDecodeEncode =
     (case styleResult gv ctx path blockName source shouldDecodeEncode of
        Inl e \<Rightarrow> Inl e
      | Inr r \<Rightarrow> Inr (r, setStyle pv ctx path blockName shouldDecodeEncode))"

section \<open>useSettingsForBlockElement\<close>

text \<open>
  The hook asks the block registry of \<^verbatim>\<open>@wordpress/blocks\<close> for the supported style names
  of a block and element and for the block type; the registry is not among the sources
  and is a parameter here.
\<close>

record blocksStore =
  getSupportedStyles :: "string option \<Rightarrow> string option \<Rightarrow> string list"
  getBlockType :: "string option \<Rightarrow> jsval"

text \<open>The own enumerable properties of a value, as the object spread \<^verbatim>\<open>{...v}\<close> copies them.\<close>

fun toDecimal :: "nat \<Rightarrow> string" where
  "toDecimal n =
     (if n < 10 then [char_of (48 + n)] else toDecimal (n div 10) @ [char_of (48 + n mod 10)])"

declare toDecimal.simps [simp del]

fun ownProps :: "jsval \<Rightarrow> (string, jsval) fmap" where
  "ownProps (JObj m) = m"
| "ownProps (JArr xs) = fmap_of_list (zip (map toDecimal [0..<length xs]) xs)"
| "ownProps (JStr s) = fmap_of_list (zip (map toDecimal [0..<length s]) (map (\<lambda>c. JStr [c]) s))"
| "ownProps v = fmempty"

text \<open>
  \<^verbatim>\<open>updatedSettings.section = {...updatedSettings.section, [key]: false}\<close> when the key is
  not among the supported styles.
\<close>

definition disableUnsupported ::
  "string \<Rightarrow> string list \<Rightarrow> string \<Rightarrow> (string, jsval) fmap \<Rightarrow> (string, jsval) fmap" where
  "disableUnsupported section supportedStyles key updatedSettings =
     (if key \<notin> set supportedStyles
      then fmupd section
             (JObj (fmupd key (JBool False) (ownProps (getProp (JObj updatedSettings) section))))
             updatedSettings
      else updatedSettings)"

text \<open>The body of the loop over \<^verbatim>\<open>padding\<close>, \<^verbatim>\<open>margin\<close> and \<^verbatim>\<open>blockGap\<close>.\<close>

definition spacingStep ::
  "string list \<Rightarrow> jsval \<Rightarrow> string \<Rightarrow> (string, jsval) fmap \<Rightarrow> (string, jsval) fmap" where
  "spacingStep supportedStyles supports key updatedSettings =
     (let updated = disableUnsupported ''spacing'' supportedStyles key updatedSettings;
          declared = optprop (optprop supports ''spacing'') key;
          sides = (if isArray declared then declared else optprop declared ''sides'')
      in if truthy (optprop sides ''length'')
         then fmupd ''spacing''
                (JObj (fmupd key
                   (JObj (fmupd ''sides'' sides
                      (ownProps (optprop (getProp (JObj updated) ''spacing'') key))))
                   (ownProps (getProp (JObj updated) ''spacing''))))
                updated
         else updated)"

definition useSettingsForBlockElement ::
  "blocksStore \<Rightarrow> jsval \<Rightarrow> string option \<Rightarrow> string option \<Rightarrow> jsval" where
  "useSettingsForBlockElement store parentSettings blockName element =
     (let supportedStyles = getSupportedStyles store blockName element;
          supports = optprop (getBlockType store blockName) ''supports'';
          s0 = ownProps parentSettings;
          s1 = (if ''fontSize'' \<notin> set supportedStyles
                then fmupd ''typography''
                       (JObj (fmupd ''customFontSize'' (JBool False)
                          (fmupd ''fontSizes'' (JObj fmempty)
                             (ownProps (getProp (JObj s0) ''typography'')))))
                       s0
                else s0);
          s2 = (if ''fontFamily'' \<notin> set supportedStyles
                then fmupd ''typography''
                       (JObj (fmupd ''fontFamilies'' (JObj fmempty)
                          (ownProps (getProp (JObj s1) ''typography''))))
                       s1
                else s1);
          s3 = fold (disableUnsupported ''typography'' supportedStyles)
                 [''lineHeight'', ''fontStyle'', ''fontWeight'', ''letterSpacing'',
                  ''textTransform'', ''textDecoration'']
                 s2;
          s4 = fold (disableUnsupported ''layout'' supportedStyles)
                 [''contentSize'', ''wideSize''] s3;
          s5 = fold (spacingStep supportedStyles supports)
                 [''padding'', ''margin'', ''blockGap''] s4;
          s6 = disableUnsupported ''dimensions'' supportedStyles ''minHeight'' s5
      in JObj s6)"

text \<open>A property name that is neither \<^verbatim>\<open>length\<close> nor a numeral.\<close>

definition named :: "string \<Rightarrow> bool" where
  "named k = (k \<noteq> ''length'' \<and> (\<exists>c \<in> set k. c \<notin> set ''0123456789''))"








section \<open>The write functions on a store of objects\<close>

text \<open>
  A value of the model above has no identity, so it cannot say that a write leaves an
  existing object alone. Here the objects live in a store: a list of cells, the address
  of an object being its position, and a value is a primitive or a reference. The write
  functions are the same lines of \<^verbatim>\<open>hooks.js\<close>, with lodash's \<^verbatim>\<open>set\<close> updating cells in
  place and \<^verbatim>\<open>JSON.parse\<close> allocating new ones. \<^verbatim>\<open>JSON.stringify\<close> follows references; a
  chain of references longer than the store goes through some object twice, which is the
  circular structure that it rejects with a \<^verbatim>\<open>TypeError\<close>. Each function returns the store
  it leaves behind, also when it throws.
\<close>

type_synonym addr = nat

datatype ref_val = RUndef | RNull | RBool bool | RNum int | RStr string | Ref addr

datatype cell = ObjCell "(string \<times> ref_val) list" | ArrCell "ref_val list"

type_synonym store = "cell list"

datatype json = TNull | TBool bool | TNum int | TStr string
  | TArr "json list" | TObj "(string \<times> json) list"

fun members ::
  "(ref_val \<Rightarrow> failure + json option) \<Rightarrow> (string \<times> ref_val) list \<Rightarrow> failure + (string \<times> json) list" where
  "members f [] = Inr []"
| "members f ((k, v) # fs) =
     (case f v of
        Inl e \<Rightarrow> Inl e
      | Inr t \<Rightarrow>
          (case members f fs of
             Inl e \<Rightarrow> Inl e
           | Inr ms \<Rightarrow> Inr (case t of None \<Rightarrow> ms | Some x \<Rightarrow> (k, x) # ms)))"

fun elements :: "(ref_val \<Rightarrow> failure + json option) \<Rightarrow> ref_val list \<Rightarrow> failure + json list" where
  "elements f [] = Inr []"
| "elements f (v # vs) =
     (case f v of
        Inl e \<Rightarrow> Inl e
      | Inr t \<Rightarrow>
          (case elements f vs of
             Inl e \<Rightarrow> Inl e
           | Inr ts \<Rightarrow> Inr ((case t of None \<Rightarrow> TNull | Some x \<Rightarrow> x) # ts)))"

fun stringify :: "nat \<Rightarrow> store \<Rightarrow> ref_val \<Rightarrow> failure + json option" where
  "stringify n h RUndef = Inr None"
| "stringify n h RNull = Inr (Some TNull)"
| "stringify n h (RBool b) = Inr (Some (TBool b))"
| "stringify n h (RNum i) = Inr (Some (TNum i))"
| "stringify n h (RStr s) = Inr (Some (TStr s))"
| "stringify 0 h (Ref a) = Inl TypeError"
| "stringify (Suc n) h (Ref a) =
     (if length h \<le> a then Inl TypeError
      else case h ! a of
        ObjCell fs \<Rightarrow>
          (case members (stringify n h) fs of
             Inl e \<Rightarrow> Inl e
           | Inr ms \<Rightarrow> Inr (Some (TObj ms)))
      | ArrCell vs \<Rightarrow>
          (case elements (stringify n h) vs of
             Inl e \<Rightarrow> Inl e
           | Inr ts \<Rightarrow> Inr (Some (TArr ts))))"

fun parse :: "json \<Rightarrow> store \<Rightarrow> ref_val \<times> store"
  and parseElements :: "json list \<Rightarrow> store \<Rightarrow> ref_val list \<times> store"
  and parseMembers :: "(string \<times> json) list \<Rightarrow> store \<Rightarrow> (string \<times> ref_val) list \<times> store" where
  "parse TNull h = (RNull, h)"
| "parse (TBool b) h = (RBool b, h)"
| "parse (TNum i) h = (RNum i, h)"
| "parse (TStr s) h = (RStr s, h)"
| "parse (TArr ts) h = (case parseElements ts h of (vs, h') \<Rightarrow> (Ref (length h'), h' @ [ArrCell vs]))"
| "parse (TObj ms) h = (case parseMembers ms h of (fs, h') \<Rightarrow> (Ref (length h'), h' @ [ObjCell fs]))"
| "parseElements [] h = ([], h)"
| "parseElements (t # ts) h =
     (case parse t h of (v, h') \<Rightarrow> (case parseElements ts h' of (vs, h'') \<Rightarrow> (v # vs, h'')))"
| "parseMembers [] h = ([], h)"
| "parseMembers ((k, t) # ms) h =
     (case parse t h of (v, h') \<Rightarrow> (case parseMembers ms h' of (fs, h'') \<Rightarrow> ((k, v) # fs, h'')))"

definition deepCloneS :: "store \<Rightarrow> ref_val \<Rightarrow> (failure + ref_val) \<times> store" where
  "deepCloneS h v =
     (case stringify (Suc (length h)) h v of
        Inl e \<Rightarrow> (Inl e, h)
      | Inr None \<Rightarrow> (Inl SyntaxError, h)
      | Inr (Some t) \<Rightarrow> (case parse t h of (v', h') \<Rightarrow> (Inr v', h')))"

fun cellProp :: "cell \<Rightarrow> string \<Rightarrow> ref_val" where
  "cellProp (ObjCell fs) k = (case map_of fs k of Some v \<Rightarrow> v | None \<Rightarrow> RUndef)"
| "cellProp (ArrCell vs) k =
     (case arrayIndex k of
        Some i \<Rightarrow> if i < length vs then vs ! i else RUndef
      | None \<Rightarrow> if k = ''length'' then RNum (int (length vs)) else RUndef)"

fun getPropS :: "store \<Rightarrow> ref_val \<Rightarrow> string \<Rightarrow> ref_val" where
  "getPropS h (Ref a) k = (if a < length h then cellProp (h ! a) k else RUndef)"
| "getPropS h (RStr s) k =
     (case arrayIndex k of
        Some i \<Rightarrow> if i < length s then RStr [s ! i] else RUndef
      | None \<Rightarrow> if k = ''length'' then RNum (int (length s)) else RUndef)"
| "getPropS h v k = RUndef"

fun hasKeyS :: "store \<Rightarrow> ref_val \<Rightarrow> string \<Rightarrow> bool" where
  "hasKeyS h (Ref a) k =
     (a < length h \<and> (case h ! a of ObjCell fs \<Rightarrow> k \<in> fst ` set fs | ArrCell vs \<Rightarrow> False))"
| "hasKeyS h v k = False"

definition castPathS :: "string \<Rightarrow> store \<Rightarrow> ref_val \<Rightarrow> string list" where
  "castPathS p h object =
     (if CHR ''.'' \<notin> set p \<or> hasKeyS h object p then [p] else stringToPath p)"

fun assignCell :: "cell \<Rightarrow> string \<Rightarrow> ref_val \<Rightarrow> failure + cell" where
  "assignCell (ObjCell fs) k v = Inr (ObjCell (AList.update k v fs))"
| "assignCell (ArrCell vs) k v =
     (case arrayIndex k of
        Some i \<Rightarrow>
          Inr (ArrCell (if i < length vs then vs[i := v]
                        else vs @ replicate (i - length vs) RUndef @ [v]))
      | None \<Rightarrow> Inl OutsideModel)"

definition assignValueS :: "store \<Rightarrow> addr \<Rightarrow> string \<Rightarrow> ref_val \<Rightarrow> failure option \<times> store" where
  "assignValueS h a k v =
     (if length h \<le> a then (Some OutsideModel, h)
      else case assignCell (h ! a) k v of
        Inl e \<Rightarrow> (Some e, h)
      | Inr c \<Rightarrow> (None, h[a := c]))"

fun baseSetS :: "store \<Rightarrow> addr \<Rightarrow> string list \<Rightarrow> ref_val \<Rightarrow> failure option \<times> store" where
  "baseSetS h nested [] v = (None, h)"
| "baseSetS h nested (key # rest) v =
     (if protoKey key then (Some OutsideModel, h)
      else if rest = [] then assignValueS h nested key v
      else
        (case getPropS h (Ref nested) key of
           Ref a \<Rightarrow>
             (case assignValueS h nested key (Ref a) of
                (Some e, h') \<Rightarrow> (Some e, h')
              | (None, h') \<Rightarrow> baseSetS h' a rest v)
         | objValue \<Rightarrow>
             (case assignValueS (h @ [if isIndex (hd rest) then ArrCell [] else ObjCell []])
                     nested key (Ref (length h)) of
                (Some e, h') \<Rightarrow> (Some e, h')
              | (None, h') \<Rightarrow> baseSetS h' (length h) rest v)))"

fun lodash_setS :: "store \<Rightarrow> ref_val \<Rightarrow> string \<Rightarrow> ref_val \<Rightarrow> failure option \<times> store" where
  "lodash_setS h (Ref a) p v = baseSetS h a (castPathS p h (Ref a)) v"
| "lodash_setS h object p v = (None, h)"

definition setSettingS ::
  "string option \<Rightarrow> string option \<Rightarrow> ref_val \<Rightarrow> store \<Rightarrow> ref_val \<Rightarrow> (failure + ref_val) \<times> store" where
  "setSettingS propertyPath blockName newValue h currentConfig =
     (case deepCloneS h currentConfig of
        (Inl e, h') \<Rightarrow> (Inl e, h')
      | (Inr newUserConfig, h') \<Rightarrow>
          (case lodash_setS h' newUserConfig (contextualPath propertyPath blockName) newValue of
             (Some e, h'') \<Rightarrow> (Inl e, h'')
           | (None, h'') \<Rightarrow> (Inr newUserConfig, h'')))"

type_synonym encoderS =
  "store \<Rightarrow> ref_val \<Rightarrow> string option \<Rightarrow> string option \<Rightarrow> ref_val \<Rightarrow> ref_val"

definition setStyleS ::
  "encoderS \<Rightarrow> ref_val \<Rightarrow> string option \<Rightarrow> string option \<Rightarrow> bool \<Rightarrow> ref_val \<Rightarrow>
     store \<Rightarrow> ref_val \<Rightarrow> (failure + ref_val) \<times> store" where
  "setStyleS pv mergedConfig path blockName shouldDecodeEncode newValue h currentConfig =
     (case deepCloneS h currentConfig of
        (Inl e, h') \<Rightarrow> (Inl e, h')
      | (Inr newUserConfig, h') \<Rightarrow>
          if shouldDecodeEncode \<and> (mergedConfig = RUndef \<or> mergedConfig = RNull)
          then (Inl TypeError, h')
          else
            (case lodash_setS h' newUserConfig (finalPath path blockName)
                    (if shouldDecodeEncode
                     then pv h' (getPropS h' mergedConfig ''settings'') blockName path newValue
                     else newValue) of
               (Some e, h'') \<Rightarrow> (Inl e, h'')
             | (None, h'') \<Rightarrow> (Inr newUserConfig, h'')))"

text \<open>
  For the proofs: the references a cell holds; a store whose cells from an address on
  refer to no cell below it; a store that extends another without changing it; and the
  outcome of a write whose configuration, if an object, is a new one.
\<close>

fun refsOf :: "cell \<Rightarrow> ref_val set" where
  "refsOf (ObjCell fs) = snd ` set fs"
| "refsOf (ArrCell vs) = set vs"

definition closedFrom :: "nat \<Rightarrow> store \<Rightarrow> bool" where
  "closedFrom n h = (\<forall>a b. n \<le> a \<and> a < length h \<and> Ref b \<in> refsOf (h ! a) \<longrightarrow> n \<le> b)"

definition unchanged :: "store \<Rightarrow> store \<Rightarrow> bool" where
  "unchanged h h' = (take (length h) h' = h)"

fun isRef :: "ref_val \<Rightarrow> bool" where
  "isRef (Ref a) = True"
| "isRef v = False"

definition newObject :: "store \<Rightarrow> ref_val \<Rightarrow> failure + ref_val \<Rightarrow> bool" where
  "newObject h currentConfig out =
     (case out of
        Inl e \<Rightarrow> True
      | Inr (Ref b) \<Rightarrow> length h \<le> b
      | Inr v \<Rightarrow> \<not> isRef currentConfig)"

text \<open>
  The store and the values of the first sections are related by \<open>holds\<close>: in the store
  \<open>h\<close>, the value \<open>v\<close> is the value \<open>c\<close>, references followed; an object of the store
  that lists a key twice stands for the object with the first of the two entries.
  \<open>jsonValue\<close> is the value that a JSON text denotes. \<open>parsed t h lo r\<close> says that the
  cells of \<open>h\<close> from address \<open>lo\<close> on are the ones that \<^verbatim>\<open>JSON.parse\<close> allocates for the text
  \<open>t\<close>, children before their parent, and that \<open>r\<close> is its result; \<open>cells\<close> counts them.
\<close>

primrec jsonValue :: "json \<Rightarrow> jsval" where
  "jsonValue TNull = JNull"
| "jsonValue (TBool b) = JBool b"
| "jsonValue (TNum i) = JNum i"
| "jsonValue (TStr s) = JStr s"
| "jsonValue (TArr ts) = JArr (map jsonValue ts)"
| "jsonValue (TObj ms) = JObj (fmap_of_list (map (map_prod id jsonValue) ms))"

primrec holds :: "jsval \<Rightarrow> store \<Rightarrow> ref_val \<Rightarrow> bool" where
  "holds JUndef = (\<lambda>h v. v = RUndef)"
| "holds JNull = (\<lambda>h v. v = RNull)"
| "holds (JBool b) = (\<lambda>h v. v = RBool b)"
| "holds (JNum i) = (\<lambda>h v. v = RNum i)"
| "holds (JStr s) = (\<lambda>h v. v = RStr s)"
| "holds (JArr cs) = (\<lambda>h v.
     case v of
       Ref a \<Rightarrow> a < length h \<and>
         (case h ! a of
            ArrCell vs \<Rightarrow> list_all2 (\<lambda>p w. p h w) (map holds cs) vs
          | ObjCell fs \<Rightarrow> False)
     | _ \<Rightarrow> False)"
| "holds (JObj m) = (\<lambda>h v.
     case v of
       Ref a \<Rightarrow> a < length h \<and>
         (case h ! a of
            ObjCell fs \<Rightarrow> fmrel (\<lambda>p w. p h w) (fmmap holds m) (fmap_of_list fs)
          | ArrCell vs \<Rightarrow> False)
     | _ \<Rightarrow> False)"

fun cells :: "json \<Rightarrow> nat"
  and cellsL :: "json list \<Rightarrow> nat"
  and cellsM :: "(string \<times> json) list \<Rightarrow> nat" where
  "cells TNull = 0"
| "cells (TBool b) = 0"
| "cells (TNum i) = 0"
| "cells (TStr s) = 0"
| "cells (TArr ts) = Suc (cellsL ts)"
| "cells (TObj ms) = Suc (cellsM ms)"
| "cellsL [] = 0"
| "cellsL (t # ts) = cells t + cellsL ts"
| "cellsM [] = 0"
| "cellsM ((k, t) # ms) = cells t + cellsM ms"

fun parsed :: "json \<Rightarrow> store \<Rightarrow> nat \<Rightarrow> ref_val \<Rightarrow> bool"
  and parsedElements :: "json list \<Rightarrow> store \<Rightarrow> nat \<Rightarrow> ref_val list \<Rightarrow> bool"
  and parsedMembers :: "(string \<times> json) list \<Rightarrow> store \<Rightarrow> nat \<Rightarrow> (string \<times> ref_val) list \<Rightarrow> bool" where
  "parsed TNull h lo r = (r = RNull)"
| "parsed (TBool b) h lo r = (r = RBool b)"
| "parsed (TNum i) h lo r = (r = RNum i)"
| "parsed (TStr s) h lo r = (r = RStr s)"
| "parsed (TArr ts) h lo r =
     (r = Ref (lo + cellsL ts) \<and> lo + cellsL ts < length h \<and>
      (case h ! (lo + cellsL ts) of
         ArrCell vs \<Rightarrow> parsedElements ts h lo vs
       | ObjCell fs \<Rightarrow> False))"
| "parsed (TObj ms) h lo r =
     (r = Ref (lo + cellsM ms) \<and> lo + cellsM ms < length h \<and>
      (case h ! (lo + cellsM ms) of
         ObjCell fs \<Rightarrow> parsedMembers ms h lo fs
       | ArrCell vs \<Rightarrow> False))"
| "parsedElements [] h lo vs = (vs = [])"
| "parsedElements (t # ts) h lo vs =
     (case vs of
        [] \<Rightarrow> False
      | v # vs' \<Rightarrow> parsed t h lo v \<and> parsedElements ts h (lo + cells t) vs')"
| "parsedMembers [] h lo fs = (fs = [])"
| "parsedMembers ((k, t) # ms) h lo fs =
     (case fs of
        [] \<Rightarrow> False
      | (k', v) # fs' \<Rightarrow> k' = k \<and> parsed t h lo v \<and> parsedMembers ms h (lo + cells t) fs')"

text \<open>An object has each of its keys once: the store that a JavaScript program can build.\<close>

definition distinctKeys :: "store \<Rightarrow> bool" where
  "distinctKeys h =
     list_all (\<lambda>c. case c of ObjCell fs \<Rightarrow> distinct (map fst fs) | ArrCell vs \<Rightarrow> True) h"

section \<open>Example configurations\<close>

definition jobj :: "(string \<times> jsval) list \<Rightarrow> jsval" where
  "jobj kvs = JObj (fmap_of_list kvs)"

definition exampleBase :: jsval where
  "exampleBase =
     jobj [(''settings'', jobj [(''color'', jobj [(''text'', JBool True), (''custom'', JBool True)])]),
          (''styles'', jobj [(''css'', JStr ''body{margin:0}''),
             (''color'', jobj [(''text'', JStr ''black'')]),
             (''blocks'', jobj [(''core/button'', jobj [(''css'', JStr ''color:red'')])])])]"

definition exampleUser :: jsval where
  "exampleUser =
     jobj [(''settings'', jobj [(''blocks'', jobj [(''core/button'',
             jobj [(''color'', jobj [(''custom'', JBool False), (''text'', JNull)])])])]),
          (''styles'', jobj [(''css'', JStr [])])]"

definition exampleMerged :: jsval where
  "exampleMerged =
     jobj [(''settings'', jobj [(''color'', jobj [(''text'', JBool True), (''custom'', JBool True)]),
             (''blocks'', jobj [(''core/button'',
                jobj [(''color'', jobj [(''custom'', JBool False), (''text'', JNull)])])])]),
          (''styles'', jobj [(''css'', JStr ''body{margin:0}''),
             (''color'', jobj [(''text'', JStr ''black'')]),
             (''blocks'', jobj [(''core/button'', jobj [(''css'', JStr ''color:red'')])])])]"

definition exampleContext :: globalStyles where
  "exampleContext = \<lparr>merged = exampleMerged, base = exampleBase, user = exampleUser\<rparr>"

definition exampleUserWritten :: jsval where
  "exampleUserWritten =
     jobj [(''settings'', jobj [(''blocks'', jobj [(''core/button'',
             jobj [(''color'', jobj [(''custom'', JBool False), (''text'', JBool False)])])])]),
          (''styles'', jobj [(''css'', JStr [])])]"

definition exampleStore :: blocksStore where
  "exampleStore =
     \<lparr>getSupportedStyles = (\<lambda>blockName element. [''margin'', ''fontSize'']),
      getBlockType = (\<lambda>blockName.
        jobj [(''supports'',
          jobj [(''spacing'',
            jobj [(''padding'', JArr [JStr ''top'', JStr ''bottom'']),
                  (''margin'', jobj [(''sides'', JArr [JStr ''left''])])])])])\<rparr>"

definition exampleCells :: store where
  "exampleCells =
     [ObjCell [(''css'', RStr ''a{}'')],
      ObjCell [],
      ObjCell [(''settings'', Ref 1), (''styles'', Ref 0)],
      ArrCell [RStr ''x'', RUndef]]"

text \<open>Stand-ins for the two functions of \<^verbatim>\<open>./utils\<close>, on values that hold no preset variable.\<close>

definition plainDecoder :: decoder where
  "plainDecoder features blockName variable = variable"

definition plainEncoder :: encoder where
  "plainEncoder features blockName path v = v"

text \<open>
  The value of the configuration at address 2 of the example store, a context whose user
  and merged views are that value, what two writes make of it, and the encoder of
  \<^verbatim>\<open>./utils\<close> on a store, for values that hold no preset.
\<close>

definition exampleStored :: jsval where
  "exampleStored =
     jobj [(''settings'', jobj []), (''styles'', jobj [(''css'', JStr ''a{}'')])]"

definition exampleStoredContext :: globalStyles where
  "exampleStoredContext = \<lparr>merged = exampleStored, base = exampleBase, user = exampleStored\<rparr>"

definition exampleSettingWritten :: jsval where
  "exampleSettingWritten =
     jobj [(''settings'', jobj [(''blocks'', jobj [(''core/button'',
             jobj [(''color'', jobj [(''palette'',
               JArr [JUndef, jobj [(''slug'', JArr [JStr ''x'', JUndef])]])])])])]),
          (''styles'', jobj [(''css'', JStr ''a{}'')])]"

definition exampleStyleWritten :: jsval where
  "exampleStyleWritten =
     jobj [(''settings'', jobj []),
          (''styles'', jobj [(''css'', JStr ''a{}''),
             (''blocks'', jobj [(''core/button'',
                jobj [(''css'', JArr [JStr ''x'', JUndef])])])])]"

definition plainEncoderS :: encoderS where
  "plainEncoderS h features blockName path v = v"

section \<open>Properties\<close>

lemmas example_defs = exampleContext_def exampleMerged_def exampleBase_def exampleUser_def jobj_def

subsection \<open>Reset\<close>




subsection \<open>Which view a style is read from\<close>

lemma finalPath_css:
  "(finalPath path blockName = ''styles.css'') = (\<not> given blockName \<and> path = Some ''css'')"
  by (cases path; cases blockName) (auto simp: finalPath_def appendedPath_def)

text \<open>
  Claim C2. With path \<^verbatim>\<open>css\<close>, no block name and source \<^verbatim>\<open>all\<close>, the raw value is the one at
  \<^verbatim>\<open>styles.css\<close> of the user view, whatever it is and whatever the merged view holds; the
  hook returns it as it is when decoding is off, and hands it to \<^verbatim>\<open>getValueFromVariable\<close>
  otherwise. Every other final path is read from the merged view.
\<close>

theorem css_read_from_user_view:
  "rawResult ctx (Some ''css'') None ''all'' = Inr (lodash_get (user ctx) ''styles.css'') \<and>
   map_sum id fst (useGlobalStyle gv pv ctx (Some ''css'') None ''all'' d) =
     Inr (if d then gv (merged ctx) None (lodash_get (user ctx) ''styles.css'')
          else lodash_get (user ctx) ''styles.css'') \<and>
   (finalPath path blockName \<noteq> ''styles.css'' \<longrightarrow>
      rawResult ctx path blockName ''all'' =
        Inr (lodash_get (merged ctx) (finalPath path blockName)) \<and>
      map_sum id fst (useGlobalStyle gv pv ctx path blockName ''all'' d) =
        Inr (if d then gv (merged ctx) blockName (lodash_get (merged ctx) (finalPath path blockName))
             else lodash_get (merged ctx) (finalPath path blockName)))"
  by (simp add: useGlobalStyle_def styleResult_def rawResult_def finalPath_css)
     (simp add: finalPath_def appendedPath_def)

theorem css_read_from_user_view_witness:
  "lodash_get (merged exampleContext) ''styles.css'' = JStr ''body{margin:0}'' \<and>
   map_sum id fst (useGlobalStyle plainDecoder plainEncoder exampleContext (Some ''css'') None ''all'' False) =
     Inr (JStr []) \<and>
   finalPath (Some ''color.text'') None \<noteq> ''styles.css'' \<and>
   map_sum id fst (useGlobalStyle plainDecoder plainEncoder exampleContext (Some ''color.text'') None ''all'' False) =
     Inr (JStr ''black'')"
proof -
  have u: "lodash_get (user exampleContext) ''styles.css'' = JStr []"
    by code_simp
  have m: "lodash_get (merged exampleContext) ''styles.css'' = JStr ''body{margin:0}''"
    by code_simp
  have p: "finalPath (Some ''color.text'') None = ''styles.color.text''"
    by (simp add: finalPath_def appendedPath_def)
  have c: "lodash_get (merged exampleContext) ''styles.color.text'' = JStr ''black''"
    by code_simp
  show ?thesis
    using css_read_from_user_view
      [of exampleContext plainDecoder plainEncoder False "Some ''color.text''" None] u m c
    by (simp add: p)
qed

text \<open>
  Claim C9. The exception for \<^verbatim>\<open>styles.css\<close> is for the global path only: with a block name
  \<open>B\<close>, path \<^verbatim>\<open>css\<close> and source \<^verbatim>\<open>all\<close> read \<^verbatim>\<open>styles.blocks.B.css\<close> from the merged view.
\<close>

theorem block_css_read_from_merged_view:
  "given blockName \<Longrightarrow>
     finalPath (Some ''css'') blockName = ''styles.blocks.'' @ str_of blockName @ ''.css'' \<and>
     rawResult ctx (Some ''css'') blockName ''all'' =
       Inr (lodash_get (merged ctx) (''styles.blocks.'' @ str_of blockName @ ''.css'')) \<and>
     map_sum id fst (useGlobalStyle gv pv ctx (Some ''css'') blockName ''all'' False) =
       Inr (lodash_get (merged ctx) (''styles.blocks.'' @ str_of blockName @ ''.css''))"
  by (simp add: useGlobalStyle_def styleResult_def rawResult_def finalPath_css)
     (simp add: finalPath_def appendedPath_def)

theorem block_css_read_from_merged_view_witness:
  "given (Some ''core/button'') \<and>
   lodash_get (user exampleContext) ''styles.blocks.core/button.css'' = JUndef \<and>
   map_sum id fst
     (useGlobalStyle plainDecoder plainEncoder exampleContext (Some ''css'') (Some ''core/button'') ''all'' False) =
     Inr (JStr ''color:red'')"
proof -
  have g: "given (Some ''core/button'')"
    by simp
  have u: "lodash_get (user exampleContext) ''styles.blocks.core/button.css'' = JUndef"
    by code_simp
  have m: "lodash_get (merged exampleContext) ''styles.blocks.core/button.css'' = JStr ''color:red''"
    by code_simp
  show ?thesis
    using block_css_read_from_merged_view [OF g, of exampleContext plainDecoder plainEncoder] u m by simp
qed

subsection \<open>Reading one setting\<close>



subsection \<open>Unsupported sources\<close>

lemma assignValue_failure: "assignValue nested k v = Inl e \<Longrightarrow> e = OutsideModel"
  by (cases nested) (auto split: option.splits)

lemma baseSet_failure: "baseSet nested ks v = Inl e \<Longrightarrow> e = OutsideModel"
proof (induction ks arbitrary: nested)
  case Nil
  then show ?case by simp
next
  case (Cons key rest)
  then show ?case
    by (auto simp: Let_def split: if_splits sum.splits dest: assignValue_failure)
qed

lemma lodash_set_failure: "lodash_set object p v = Inl e \<Longrightarrow> e = OutsideModel"
  by (auto simp: lodash_set_def split: if_splits dest: baseSet_failure)

lemma forEachSetting_failure:
  "forEachSetting configToUse abp xs result = Inl e \<Longrightarrow> e = OutsideModel"
  by (induction xs arbitrary: result)
     (auto simp: Let_def split: if_splits sum.splits dest: lodash_set_failure)

text \<open>
  Claim C7, as the code has it. \<^verbatim>\<open>useGlobalStyle\<close> throws \<^verbatim>\<open>Unsupported source\<close> exactly for
  the sources other than \<^verbatim>\<open>all\<close>, \<^verbatim>\<open>user\<close> and \<^verbatim>\<open>base\<close>. \<^verbatim>\<open>useGlobalSetting\<close> looks the
  source up in the context (\<^verbatim>\<open>merged\<close> for \<^verbatim>\<open>all\<close>) and throws exactly when what it finds
  is falsy: so it throws for every source other than \<^verbatim>\<open>all\<close>, \<^verbatim>\<open>user\<close>, \<^verbatim>\<open>base\<close>,
  \<^verbatim>\<open>merged\<close> and the names of the members an object inherits, and for none of the first
  four when the context holds the view.
\<close>

theorem unsupported_source:
  "(useGlobalStyle gv pv ctx path blockName source d = Inl UnsupportedSource) =
     (source \<noteq> ''all'' \<and> source \<noteq> ''user'' \<and> source \<noteq> ''base'') \<and>
   (useGlobalSetting ctx path blockName source = Inl UnsupportedSource) =
     (\<not> truthy (configs ctx (sourceKey source))) \<and>
   (source \<noteq> ''all'' \<and> source \<noteq> ''user'' \<and> source \<noteq> ''base'' \<and> source \<noteq> ''merged'' \<and>
    source \<notin> set objectPrototype \<longrightarrow>
      useGlobalSetting ctx path blockName source = Inl UnsupportedSource)"
proof -
  have a: "(useGlobalStyle gv pv ctx path blockName source d = Inl UnsupportedSource) =
     (source \<noteq> ''all'' \<and> source \<noteq> ''user'' \<and> source \<noteq> ''base'')"
    by (simp add: useGlobalStyle_def styleResult_def rawResult_def)
  have b: "(useGlobalSetting ctx path blockName source = Inl UnsupportedSource) =
     (\<not> truthy (configs ctx (sourceKey source)))"
    using forEachSetting_failure [of "configs ctx (sourceKey source)"
        "appendedBlockPath blockName" VALID_SETTINGS "JObj fmempty" UnsupportedSource]
    by (auto simp: useGlobalSetting_def settingValue_def Let_def split: sum.splits)
  have c: "source \<noteq> ''all'' \<and> source \<noteq> ''user'' \<and> source \<noteq> ''base'' \<and> source \<noteq> ''merged'' \<and>
      source \<notin> set objectPrototype \<longrightarrow> \<not> truthy (configs ctx (sourceKey source))"
    by (simp add: configs_def sourceKey_def)
  from a b c show ?thesis by blast
qed

theorem unsupported_source_witness:
  "''theme'' \<notin> set objectPrototype \<and>
   useGlobalStyle plainDecoder plainEncoder exampleContext (Some ''css'') None ''theme'' True =
     Inl UnsupportedSource \<and>
   useGlobalSetting exampleContext (Some ''color.text'') None ''theme'' = Inl UnsupportedSource \<and>
   useGlobalStyle plainDecoder plainEncoder exampleContext (Some ''css'') None ''base'' True \<noteq>
     Inl UnsupportedSource \<and>
   useGlobalSetting exampleContext (Some ''color.text'') None ''base'' \<noteq> Inl UnsupportedSource"
proof -
  have t: "truthy (configs exampleContext (sourceKey ''base''))"
    by (simp add: configs_def sourceKey_def example_defs)
  have n: "''theme'' \<notin> set objectPrototype"
    by (simp add: objectPrototype_def)
  show ?thesis
    using unsupported_source
        [of plainDecoder plainEncoder exampleContext "Some ''css''" None "''theme''" True]
      unsupported_source
        [of plainDecoder plainEncoder exampleContext "Some ''color.text''" None "''theme''" True]
      unsupported_source
        [of plainDecoder plainEncoder exampleContext "Some ''css''" None "''base''" True]
      unsupported_source
        [of plainDecoder plainEncoder exampleContext "Some ''color.text''" None "''base''" True]
      t n
    by simp
qed

theorem unsupported_source_counterexample:
  "''merged'' \<noteq> ''all'' \<and> ''merged'' \<noteq> ''user'' \<and> ''merged'' \<noteq> ''base'' \<and>
   map_sum id fst (useGlobalSetting exampleContext (Some ''color.text'') None ''merged'') =
     Inr (JBool True)"
  by code_simp

subsection \<open>Writing a value and reading it back\<close>

lemma assignValue_getProp:
  "assignValue nested k v = Inr nested' \<Longrightarrow> getProp nested' k = v \<and> isObject nested'"
  by (cases nested) (auto split: option.splits simp: nth_append)

lemma baseSet_isObject:
  "baseSet nested ks v = Inr nested' \<Longrightarrow> isObject nested \<Longrightarrow> isObject nested'"
  by (cases ks) (auto simp: Let_def split: if_splits sum.splits dest: assignValue_getProp)

lemma isObject_not_nullish: "isObject v \<Longrightarrow> \<not> nullish v"
  by (cases v) auto

lemma walk_baseSet:
  "baseSet nested ks v = Inr nested' \<Longrightarrow> ks \<noteq> [] \<Longrightarrow> walk nested' ks = v"
proof (induction ks arbitrary: nested nested')
  case Nil
  then show ?case by simp
next
  case (Cons key rest)
  show ?case
  proof (cases "rest = []")
    case True
    with Cons.prems have "assignValue nested key v = Inr nested'"
      by (simp split: if_splits)
    then show ?thesis
      using True by (auto dest!: assignValue_getProp isObject_not_nullish)
  next
    case False
    define newValue where "newValue =
      (if isObject (getProp nested key) then getProp nested key
       else if isIndex (hd rest) then JArr [] else JObj fmempty)"
    from Cons.prems False obtain child where
      c: "baseSet newValue rest v = Inr child" and a: "assignValue nested key child = Inr nested'"
      by (auto simp: Let_def newValue_def split: if_splits sum.splits)
    from Cons.IH [OF c False] have "walk child rest = v" .
    moreover from a have "getProp nested' key = child" "\<not> nullish nested'"
      by (auto dest!: assignValue_getProp isObject_not_nullish)
    ultimately show ?thesis by simp
  qed
qed

lemma segments_no_dot:
  "CHR ''.'' \<notin> set acc \<Longrightarrow> \<forall>s \<in> set (segments acc cs). CHR ''.'' \<notin> set s"
proof (induction cs arbitrary: acc)
  case Nil
  then show ?case by simp
next
  case (Cons c cs)
  have "\<forall>s \<in> set (segments [] cs). CHR ''.'' \<notin> set s"
    by (rule Cons.IH) simp
  moreover have "c \<noteq> CHR ''.'' \<Longrightarrow> \<forall>s \<in> set (segments (c # acc) cs). CHR ''.'' \<notin> set s"
    using Cons.prems by (intro Cons.IH) simp
  ultimately show ?case
    using Cons.prems by simp
qed

lemma segments_nonempty: "segments acc cs \<noteq> []"
  by (induction cs arbitrary: acc) auto

lemma stringToPath_no_dot: "s \<in> set (stringToPath p) \<Longrightarrow> CHR ''.'' \<notin> set s"
  using segments_no_dot [of "[]" p] by (auto simp: stringToPath_def split: if_splits)

lemma castPath_nonempty: "p \<noteq> [] \<Longrightarrow> castPath p object \<noteq> []"
  by (simp add: castPath_def stringToPath_def segments_nonempty)

lemma assignValue_hasKey:
  "assignValue nested k v = Inr nested' \<Longrightarrow> hasKey nested' p = (p = k \<and> \<not> isArray nested \<or> hasKey nested p)"
  by (cases nested) (auto split: option.splits)

lemma baseSet_hasKey:
  "baseSet nested (k # ks) v = Inr nested' \<Longrightarrow>
     hasKey nested' p = (p = k \<and> \<not> isArray nested \<or> hasKey nested p)"
  by (auto simp: Let_def split: if_splits sum.splits dest: assignValue_hasKey)

lemma castPath_lodash_set:
  assumes "lodash_set object p v = Inr object'"
  shows "castPath p object' = castPath p object"
proof (cases "isObject object")
  case False
  with assms show ?thesis by (simp add: lodash_set_def)
next
  case True
  with assms have b: "baseSet object (castPath p object) v = Inr object'"
    by (simp add: lodash_set_def)
  show ?thesis
  proof (cases "castPath p object")
    case Nil
    with b show ?thesis by simp
  next
    case (Cons k ks)
    from b have h: "hasKey object' p = (p = k \<and> \<not> isArray object \<or> hasKey object p)"
      unfolding Cons by (rule baseSet_hasKey)
    show ?thesis
    proof (cases "isKey p object")
      case True
      then have "isKey p object'"
        using h by (auto simp: isKey_def)
      with True show ?thesis by (simp add: castPath_def)
    next
      case False
      then have "k \<in> set (stringToPath p)" and d: "CHR ''.'' \<in> set p"
        using Cons by (auto simp: castPath_def isKey_def)
      then have "k \<noteq> p"
        using stringToPath_no_dot by blast
      with h False have "\<not> isKey p object'"
        by (auto simp: isKey_def)
      with False show ?thesis by (simp add: castPath_def)
    qed
  qed
qed

lemma lodash_get_set:
  assumes "lodash_set object p v = Inr object'" and "isObject object" and "p \<noteq> []"
  shows "lodash_get object' p = v"
proof -
  from assms have b: "baseSet object (castPath p object) v = Inr object'"
    by (simp add: lodash_set_def)
  have n: "castPath p object \<noteq> []"
    using assms(3) by (rule castPath_nonempty)
  from b assms(2) have "isObject object'"
    by (rule baseSet_isObject)
  then have "\<not> nullish object'"
    by (rule isObject_not_nullish)
  moreover have "castPath p object' = castPath p object"
    using assms(1) by (rule castPath_lodash_set)
  ultimately show ?thesis
    using walk_baseSet [OF b n] n by (simp add: lodash_get_def baseGet_def)
qed

lemma jsonCopy_isObject: "isObject (jsonCopy v) = isObject v"
  by (cases v) auto

lemma jsonCopy_primitive: "\<not> isObject v \<Longrightarrow> jsonCopy v = v"
  by (cases v) auto


lemma finalPath_nonempty: "finalPath path blockName \<noteq> []"
  by (simp add: finalPath_def)

lemma contextualPath_nonempty: "contextualPath propertyPath blockName \<noteq> []"
  by (simp add: contextualPath_def)

lemma setUserConfig_Inr:
  "setUserConfig f st = Inr st' \<Longrightarrow> \<exists>c. f (user st) = Inr c \<and> st' = st\<lparr>user := c\<rparr>"
  by (auto simp: setUserConfig_def split: sum.splits)

lemma write_keeps_value:
  assumes "deepClone c = Inr n" and "lodash_set n p v = Inr c'" and "p \<noteq> []"
    and "v = lodash_get c p"
  shows "lodash_get c' p = lodash_get c p"
proof (cases "isObject c")
  case True
  from assms(1) have n: "n = jsonCopy c"
    by (simp add: deepClone_def split: if_splits)
  with True have "isObject n"
    by (simp add: jsonCopy_isObject)
  with assms show ?thesis
    by (simp add: lodash_get_set)
next
  case False
  from assms(1) have "n = jsonCopy c"
    by (simp add: deepClone_def split: if_splits)
  with False have "n = c" "\<not> isObject n"
    by (simp_all add: jsonCopy_primitive)
  with assms(2) show ?thesis
    by (simp add: lodash_set_def)
qed

text \<open>
  Claim C5. Read a style from the user view without decoding and write the value back,
  without encoding, into the configuration it was read from: when the write returns a
  configuration, the value at the final path (\<^verbatim>\<open>styles.P\<close>, or \<^verbatim>\<open>styles.blocks.B.P\<close>) is the one
  that was there before.
\<close>

theorem style_round_trip:
  assumes "useGlobalStyle gv pv ctx path blockName ''user'' False = Inr (v, write)"
    and "write v ctx = Inr ctx'"
  shows "lodash_get (user ctx') (finalPath path blockName) =
         lodash_get (user ctx) (finalPath path blockName)"
proof -
  from assms(1) have v: "v = lodash_get (user ctx) (finalPath path blockName)"
    and w: "write = setStyle pv ctx path blockName False"
    by (auto simp: useGlobalStyle_def styleResult_def rawResult_def)
  from assms(2) obtain n where n: "deepClone (user ctx) = Inr n"
    and s: "lodash_set n (finalPath path blockName) v = Inr (user ctx')"
    unfolding w setStyle_def
    by (auto dest!: setUserConfig_Inr split: sum.splits)
  from n s finalPath_nonempty v show ?thesis
    by (rule write_keeps_value)
qed

text \<open>
  Claim C10. The write function that \<^verbatim>\<open>useGlobalSetting\<close> returns is the same whatever the
  views and the source, and whatever the read returned. On a user configuration that is
  an object it stores the new value at \<^verbatim>\<open>settings.blocks.B.P\<close> when a block name is given and
  at \<^verbatim>\<open>settings.P\<close> when none is: the new user configuration is the JSON copy of the
  current one with the value set at that path, where a read finds it.
\<close>

theorem setting_written_at_block_path:
  assumes "useGlobalSetting ctx propertyPath blockName source = Inr (v, write)"
    and "isObject (user st)" and "write newValue st = Inr st'"
  shows "write = setSetting propertyPath blockName \<and>
     contextualPath propertyPath blockName =
       (if given blockName then ''settings.blocks.'' @ str_of blockName else ''settings'') @
       (if given propertyPath then ''.'' @ str_of propertyPath else []) \<and>
     lodash_set (jsonCopy (user st)) (contextualPath propertyPath blockName) newValue =
       Inr (user st') \<and>
     lodash_get (user st') (contextualPath propertyPath blockName) = newValue"
proof -
  from assms(1) have w: "write = setSetting propertyPath blockName"
    by (auto simp: useGlobalSetting_def split: sum.splits)
  from assms(3) obtain n where n: "deepClone (user st) = Inr n"
    and s: "lodash_set n (contextualPath propertyPath blockName) newValue = Inr (user st')"
    unfolding w setSetting_def
    by (auto dest!: setUserConfig_Inr split: sum.splits)
  from n have n': "n = jsonCopy (user st)"
    by (simp add: deepClone_def split: if_splits)
  with assms(2) have "isObject n"
    by (simp add: jsonCopy_isObject)
  with s have "lodash_get (user st') (contextualPath propertyPath blockName) = newValue"
    by (simp add: lodash_get_set contextualPath_nonempty)
  with w s n' show ?thesis
    by (simp add: contextualPath_def appendedBlockPath_def appendedPropertyPath_def)
qed


theorem style_round_trip_witness:
  "useGlobalStyle plainDecoder plainEncoder exampleContext (Some ''css'') None ''user'' False =
     Inr (JStr [], setStyle plainEncoder exampleContext (Some ''css'') None False) \<and>
   setStyle plainEncoder exampleContext (Some ''css'') None False (JStr []) exampleContext =
     Inr exampleContext \<and>
   lodash_get (user exampleContext) (finalPath (Some ''css'') None) = JStr []"
proof -
  have p: "finalPath (Some ''css'') None = ''styles.css''"
    by (simp add: finalPath_def appendedPath_def)
  have g: "lodash_get (user exampleContext) ''styles.css'' = JStr []"
    by code_simp
  have h: "useGlobalStyle plainDecoder plainEncoder exampleContext (Some ''css'') None ''user'' False =
     Inr (JStr [], setStyle plainEncoder exampleContext (Some ''css'') None False)"
    by (simp add: useGlobalStyle_def styleResult_def rawResult_def p g)
  have c: "deepClone exampleUser = Inr exampleUser"
    by code_simp
  have s: "lodash_set exampleUser ''styles.css'' (JStr []) = Inr exampleUser"
    by code_simp
  have w: "setStyle plainEncoder exampleContext (Some ''css'') None False (JStr []) exampleContext =
     Inr exampleContext"
    by (simp add: setStyle_def setUserConfig_def p exampleContext_def c s)
  show ?thesis
    using style_round_trip [OF h w] h w g by (simp add: p)
qed

theorem setting_written_at_block_path_witness:
  "useGlobalSetting exampleContext (Some ''color.text'') (Some ''core/button'') ''all'' =
     Inr (JBool True, setSetting (Some ''color.text'') (Some ''core/button'')) \<and>
   lodash_get exampleMerged ''settings.blocks.core/button.color.text'' = JNull \<and>
   isObject (user exampleContext) \<and>
   setSetting (Some ''color.text'') (Some ''core/button'') (JBool False) exampleContext =
     Inr (exampleContext\<lparr>user := exampleUserWritten\<rparr>) \<and>
   lodash_get exampleUserWritten ''settings.blocks.core/button.color.text'' = JBool False \<and>
   lodash_get exampleUserWritten ''settings.color.text'' = JUndef"
proof -
  have p: "contextualPath (Some ''color.text'') (Some ''core/button'') =
      ''settings.blocks.core/button.color.text''"
    by (simp add: contextualPath_def appendedBlockPath_def appendedPropertyPath_def)
  have v: "settingValue exampleContext (Some ''color.text'') (Some ''core/button'') ''all'' =
      Inr (JBool True)"
    by code_simp
  have h: "useGlobalSetting exampleContext (Some ''color.text'') (Some ''core/button'') ''all'' =
     Inr (JBool True, setSetting (Some ''color.text'') (Some ''core/button''))"
    by (simp add: useGlobalSetting_def v)
  have n: "lodash_get exampleMerged ''settings.blocks.core/button.color.text'' = JNull"
    by code_simp
  have o: "isObject (user exampleContext)"
    by (simp add: example_defs)
  have c: "deepClone exampleUser = Inr exampleUser"
    by code_simp
  have s: "lodash_set exampleUser ''settings.blocks.core/button.color.text'' (JBool False) =
      Inr exampleUserWritten"
    by code_simp
  have w: "setSetting (Some ''color.text'') (Some ''core/button'') (JBool False) exampleContext =
     Inr (exampleContext\<lparr>user := exampleUserWritten\<rparr>)"
    by (simp add: setSetting_def setUserConfig_def p exampleContext_def c s)
  have g: "lodash_get exampleUserWritten ''settings.color.text'' = JUndef"
    by code_simp
  show ?thesis
    using setting_written_at_block_path [OF h o w] h n o w g by (simp add: p)
qed


subsection \<open>Paths as lists of keys\<close>

text \<open>
  On an object that has no property named by the whole path, \<^verbatim>\<open>get\<close> walks the keys
  between the dots; the path of a block-scoped setting is \<^verbatim>\<open>settings\<close>, \<^verbatim>\<open>blocks\<close>, the
  keys of the block name (one key, for a name without a dot) and the keys of the
  property path.
\<close>

lemma segments_append:
  "segments acc (a @ CHR ''.'' # b) = segments acc a @ segments [] b"
  by (induction a arbitrary: acc) simp_all

lemma segments_plain: "CHR ''.'' \<notin> set s \<Longrightarrow> segments acc s = [rev acc @ s]"
  by (induction s arbitrary: acc) auto

lemma stringToPath_append:
  "a \<noteq> [] \<Longrightarrow> b \<noteq> [] \<Longrightarrow> stringToPath (a @ ''.'' @ b) = stringToPath a @ stringToPath b"
  by (simp add: stringToPath_def segments_append)

lemma lodash_get_walk:
  assumes "\<not> hasKey object p" and "p \<noteq> []"
  shows "lodash_get object p = walk object (stringToPath p)"
proof -
  have "castPath p object = stringToPath p"
    using assms by (auto simp: castPath_def isKey_def stringToPath_def segments_plain)
  moreover from assms(2) obtain k ks where "stringToPath p = k # ks"
    by (cases "stringToPath p") (auto simp: stringToPath_def segments_nonempty)
  ultimately show ?thesis
    by (simp add: lodash_get_def baseGet_def)
qed

lemma contextualPath_segments:
  assumes "given propertyPath" and "given blockName"
  shows "stringToPath (contextualPath propertyPath blockName) =
     [''settings'', ''blocks''] @ stringToPath (str_of blockName) @
     stringToPath (str_of propertyPath)"
proof -
  from assms have p: "str_of propertyPath \<noteq> []" and b: "str_of blockName \<noteq> []"
    by (cases propertyPath; cases blockName; simp)+
  let ?b = "str_of blockName" and ?p = "str_of propertyPath"
  have e: "contextualPath propertyPath blockName =
      ''settings'' @ ''.'' @ (''blocks'' @ ''.'' @ (?b @ ''.'' @ ?p))"
    using assms by (simp add: contextualPath_def appendedBlockPath_def appendedPropertyPath_def)
  have s1: "stringToPath (''settings'' @ ''.'' @ (''blocks'' @ ''.'' @ (?b @ ''.'' @ ?p))) =
      stringToPath ''settings'' @ stringToPath (''blocks'' @ ''.'' @ (?b @ ''.'' @ ?p))"
    by (rule stringToPath_append) simp_all
  have s2: "stringToPath (''blocks'' @ ''.'' @ (?b @ ''.'' @ ?p)) =
      stringToPath ''blocks'' @ stringToPath (?b @ ''.'' @ ?p)"
    by (rule stringToPath_append) simp_all
  have s3: "stringToPath (?b @ ''.'' @ ?p) = stringToPath ?b @ stringToPath ?p"
    using b p by (rule stringToPath_append)
  have s4: "stringToPath ''settings'' = [''settings'']" "stringToPath ''blocks'' = [''blocks'']"
    by (simp_all add: stringToPath_def)
  show ?thesis
    by (simp only: e s1 s2 s3 s4) simp
qed

subsection \<open>Reading all settings\<close>























lemma resolved_single_read:
  "setting \<noteq> [] \<Longrightarrow> truthy (configs ctx (sourceKey source)) \<Longrightarrow>
     settingValue ctx (Some setting) blockName source =
       Inr (resolved (configs ctx (sourceKey source)) (appendedBlockPath blockName) setting)"
  by (simp add: settingValue_def resolved_def contextualPath_def globalPath_def
      appendedPropertyPath_def Let_def)



subsection \<open>Spacing features of a block\<close>

lemma toDecimal_digits: "set (toDecimal n) \<subseteq> set ''0123456789''"
proof (induction n rule: toDecimal.induct)
  case (1 n)
  have d: "char_of (48 + k) \<in> set ''0123456789''" if "k < 10" for k :: nat
  proof -
    have "\<forall>j \<in> set [0..<10]. char_of (48 + j) \<in> set ''0123456789''"
      by code_simp
    with that show ?thesis by simp
  qed
  show ?case
  proof (cases "n < 10")
    case True
    with d [of n] show ?thesis
      by (subst toDecimal.simps) simp
  next
    case False
    have "n mod 10 < 10" by simp
    with d [of "n mod 10"] 1 False show ?thesis
      by (subst toDecimal.simps) simp
  qed
qed

lemma named_arrayIndex: "named k \<Longrightarrow> arrayIndex k = None"
  by (auto simp: named_def arrayIndex_def reIsUint_def digit_def list_all_iff)

lemma named_not_decimal: "named k \<Longrightarrow> k \<notin> set (map toDecimal ns)"
  using toDecimal_digits by (auto simp: named_def)

lemma map_of_zip_None: "k \<notin> set ks \<Longrightarrow> map_of (zip ks vs) k = None"
  by (auto simp: map_of_eq_None_iff dest: set_zip_leftD)

lemma ownProps_named:
  assumes "named k"
  shows "getProp (JObj (ownProps v)) k = getProp v k"
proof (cases v)
  case (JArr xs)
  from assms have m: "map_of (zip (map toDecimal [0..<length xs]) xs) k = None"
    by (intro map_of_zip_None named_not_decimal)
  from assms have "k \<noteq> ''length''" by (simp add: named_def)
  with assms JArr show ?thesis
    by (simp add: fmlookup_of_list m named_arrayIndex)
next
  case (JStr s)
  from assms have m: "map_of (zip (map toDecimal [0..<length s]) (map (\<lambda>c. JStr [c]) s)) k = None"
    by (intro map_of_zip_None named_not_decimal)
  from assms have "k \<noteq> ''length''" by (simp add: named_def)
  with assms JStr show ?thesis
    by (simp add: fmlookup_of_list m named_arrayIndex)
qed simp_all

lemma spacingStep_own:
  "getProp (getProp (JObj (spacingStep supportedStyles supports key s)) ''spacing'') key =
     (let declared = optprop (optprop supports ''spacing'') key;
          sides = (if isArray declared then declared else optprop declared ''sides'');
          entry = (if key \<in> set supportedStyles then getProp (getProp (JObj s) ''spacing'') key
                   else JBool False)
      in if truthy (optprop sides ''length'') then JObj (fmupd ''sides'' sides (ownProps entry))
         else entry)"
proof (cases "key \<in> set supportedStyles")
  case True
  have "optprop v key = getProp v key" for v
    by (cases v) (simp_all add: optprop_def)
  with True show ?thesis
    by (simp add: spacingStep_def disableUnsupported_def Let_def)
next
  case False
  then show ?thesis
    by (simp add: spacingStep_def disableUnsupported_def Let_def optprop_def)
qed

lemma spacingStep_other:
  assumes "k \<noteq> key" and "named k"
  shows "getProp (getProp (JObj (spacingStep supportedStyles supports key s)) ''spacing'') k =
         getProp (getProp (JObj s) ''spacing'') k"
proof -
  let ?sp = "getProp (JObj s) ''spacing''"
  have a: "getProp (JObj (fmupd key x (ownProps v))) k = getProp v k" for x v
    using assms ownProps_named [of k v] by simp
  have b: "getProp (getProp (JObj (disableUnsupported ''spacing'' supportedStyles key s))
      ''spacing'') k = getProp ?sp k"
    using a by (simp add: disableUnsupported_def)
  show ?thesis
    using a b by (simp add: spacingStep_def Let_def)
qed

lemma disableUnsupported_other:
  "section \<noteq> other \<Longrightarrow>
     getProp (JObj (disableUnsupported section supportedStyles key s)) other = getProp (JObj s) other"
  by (simp add: disableUnsupported_def)

lemma fold_disableUnsupported_other:
  "section \<noteq> other \<Longrightarrow>
     getProp (JObj (fold (disableUnsupported section supportedStyles) keys s)) other =
     getProp (JObj s) other"
  by (induction keys arbitrary: s) (simp_all add: disableUnsupported_other del: getProp.simps)

text \<open>
  What the hook returns at \<^verbatim>\<open>spacing.padding\<close>, \<^verbatim>\<open>spacing.margin\<close> and
  \<^verbatim>\<open>spacing.blockGap\<close>, for every input: the entry is the parent's when the feature is
  supported and \<^verbatim>\<open>false\<close> when it is not, and when the block declares a side list that is
  not empty, an object made of that entry's properties and the sides takes its place.
\<close>

lemma spacing_entry:
  assumes "key \<in> {''padding'', ''margin'', ''blockGap''}"
  shows "getProp (getProp (useSettingsForBlockElement store parentSettings blockName element)
           ''spacing'') key =
     (let supportedStyles = getSupportedStyles store blockName element;
          declared = optprop (optprop (optprop (getBlockType store blockName) ''supports'')
                       ''spacing'') key;
          sides = (if isArray declared then declared else optprop declared ''sides'');
          entry = (if key \<in> set supportedStyles
                   then getProp (getProp (JObj (ownProps parentSettings)) ''spacing'') key
                   else JBool False)
      in if truthy (optprop sides ''length'') then JObj (fmupd ''sides'' sides (ownProps entry))
         else entry)"
proof -
  let ?sup = "getSupportedStyles store blockName element"
  let ?supports = "optprop (getBlockType store blockName) ''supports''"
  let ?s0 = "ownProps parentSettings"
  define s1 where "s1 = (if ''fontSize'' \<notin> set ?sup
                then fmupd ''typography''
                       (JObj (fmupd ''customFontSize'' (JBool False)
                          (fmupd ''fontSizes'' (JObj fmempty)
                             (ownProps (getProp (JObj ?s0) ''typography'')))))
                       ?s0
                else ?s0)"
  define s2 where "s2 = (if ''fontFamily'' \<notin> set ?sup
                then fmupd ''typography''
                       (JObj (fmupd ''fontFamilies'' (JObj fmempty)
                          (ownProps (getProp (JObj s1) ''typography''))))
                       s1
                else s1)"
  define s3 where "s3 = fold (disableUnsupported ''typography'' ?sup)
                 [''lineHeight'', ''fontStyle'', ''fontWeight'', ''letterSpacing'',
                  ''textTransform'', ''textDecoration''] s2"
  define s4 where "s4 = fold (disableUnsupported ''layout'' ?sup) [''contentSize'', ''wideSize''] s3"
  define p where "p = spacingStep ?sup ?supports ''padding'' s4"
  define m where "m = spacingStep ?sup ?supports ''margin'' p"
  define g where "g = spacingStep ?sup ?supports ''blockGap'' m"
  have g: "g = fold (spacingStep ?sup ?supports) [''padding'', ''margin'', ''blockGap''] s4"
    by (simp add: g_def m_def p_def)
  have r: "useSettingsForBlockElement store parentSettings blockName element =
      JObj (disableUnsupported ''dimensions'' ?sup ''minHeight'' g)"
    unfolding g by (simp only: useSettingsForBlockElement_def Let_def s4_def s3_def s2_def s1_def)
  have "getProp (JObj s1) ''spacing'' = getProp (JObj ?s0) ''spacing''"
    by (simp add: s1_def)
  moreover have "getProp (JObj s2) ''spacing'' = getProp (JObj s1) ''spacing''"
    by (simp add: s2_def)
  moreover have "getProp (JObj s3) ''spacing'' = getProp (JObj s2) ''spacing''"
    unfolding s3_def by (rule fold_disableUnsupported_other) simp
  moreover have "getProp (JObj s4) ''spacing'' = getProp (JObj s3) ''spacing''"
    unfolding s4_def by (rule fold_disableUnsupported_other) simp
  ultimately have sp4: "getProp (JObj s4) ''spacing'' = getProp (JObj ?s0) ''spacing''"
    by (simp del: getProp.simps)
  have n: "named ''padding''" "named ''margin''" "named ''blockGap''"
    by (simp_all add: named_def)
  have out: "getProp (getProp (useSettingsForBlockElement store parentSettings blockName element)
      ''spacing'') k = getProp (getProp (JObj g) ''spacing'') k" for k
    by (simp add: r disableUnsupported_other del: getProp.simps)
  have own: "getProp (getProp (JObj (spacingStep ?sup ?supports k s)) ''spacing'') k =
     (let declared = optprop (optprop ?supports ''spacing'') k;
          sides = (if isArray declared then declared else optprop declared ''sides'');
          entry = (if k \<in> set ?sup then getProp (getProp (JObj s) ''spacing'') k
                   else JBool False)
      in if truthy (optprop sides ''length'') then JObj (fmupd ''sides'' sides (ownProps entry))
         else entry)" for k s
    by (rule spacingStep_own)
  from assms consider "key = ''padding''" | "key = ''margin''" | "key = ''blockGap''" by auto
  then show ?thesis
  proof cases
    case 1
    have "getProp (getProp (JObj g) ''spacing'') ''padding'' =
        getProp (getProp (JObj p) ''spacing'') ''padding''"
      by (simp add: g_def m_def spacingStep_other n del: getProp.simps)
    then show ?thesis
      unfolding 1 by (simp only: out p_def own sp4 Let_def)
  next
    case 2
    have "getProp (getProp (JObj g) ''spacing'') ''margin'' =
        getProp (getProp (JObj m) ''spacing'') ''margin''"
      by (simp add: g_def spacingStep_other n del: getProp.simps)
    moreover have "getProp (getProp (JObj p) ''spacing'') ''margin'' =
        getProp (getProp (JObj ?s0) ''spacing'') ''margin''"
      by (simp add: p_def spacingStep_other n sp4 del: getProp.simps)
    ultimately show ?thesis
      unfolding 2 by (simp only: out m_def own Let_def)
  next
    case 3
    have "getProp (getProp (JObj m) ''spacing'') ''blockGap'' =
        getProp (getProp (JObj ?s0) ''spacing'') ''blockGap''"
      by (simp add: m_def p_def spacingStep_other n sp4 del: getProp.simps)
    then show ?thesis
      unfolding 3 by (simp only: out g_def own Let_def)
  qed
qed


text \<open>
  Claim C1 fails on the code. In the example registry the block does not support
  \<^verbatim>\<open>padding\<close> and declares sides for it: the loop first sets \<^verbatim>\<open>spacing.padding\<close> to
  \<^verbatim>\<open>false\<close> and then, in the same pass, replaces it by an object holding the sides, so that
  the feature is not disabled and the sides are copied although it is not supported.
\<close>

theorem unsupported_spacing_keeps_sides:
  "''padding'' \<notin> set (getSupportedStyles exampleStore (Some ''core/group'') None) \<and>
   optprop (optprop (optprop (getBlockType exampleStore (Some ''core/group'')) ''supports'')
     ''spacing'') ''padding'' = JArr [JStr ''top'', JStr ''bottom''] \<and>
   getProp (getProp (useSettingsForBlockElement exampleStore (JObj fmempty) (Some ''core/group'') None)
     ''spacing'') ''padding'' = jobj [(''sides'', JArr [JStr ''top'', JStr ''bottom''])] \<and>
   getProp (getProp (useSettingsForBlockElement exampleStore (JObj fmempty) (Some ''core/group'') None)
     ''spacing'') ''padding'' \<noteq> JBool False"
  by code_simp

subsection \<open>Writes leave the existing objects alone\<close>

lemma unchanged_refl: "unchanged h h"
  by (simp add: unchanged_def)

lemma unchanged_trans: "unchanged h h' \<Longrightarrow> unchanged h' h'' \<Longrightarrow> unchanged h h''"
  unfolding unchanged_def
  by (metis length_take min.absorb2 nat_le_linear take_all take_take)

lemma unchanged_append: "unchanged h (h @ ext)"
  by (simp add: unchanged_def)

lemma unchanged_length:
  assumes "unchanged h h'"
  shows "length h \<le> length h'"
proof -
  from assms have "length (take (length h) h') = length h"
    by (simp add: unchanged_def)
  then show ?thesis by simp
qed

lemma unchanged_update: "unchanged h h' \<Longrightarrow> length h \<le> a \<Longrightarrow> unchanged h (h'[a := c])"
  by (simp add: unchanged_def)

lemma closedFrom_append:
  assumes "closedFrom n h" and "\<forall>b. Ref b \<in> refsOf c \<longrightarrow> n \<le> b"
  shows "closedFrom n (h @ [c])"
  using assms unfolding closedFrom_def
  by (auto simp: nth_append less_Suc_eq)

lemma closedFrom_update:
  assumes "closedFrom n h" and "\<forall>b. Ref b \<in> refsOf c \<longrightarrow> n \<le> b"
  shows "closedFrom n (h[a := c])"
proof (cases "a < length h")
  case True
  with assms show ?thesis
    unfolding closedFrom_def by (auto simp: nth_list_update split: if_splits)
next
  case False
  then have "h[a := c] = h" by (simp add: list_update_beyond)
  with assms(1) show ?thesis by simp
qed

lemma parse_frame:
  "n \<le> length h \<Longrightarrow> closedFrom n h \<Longrightarrow>
     unchanged h (snd (parse t h)) \<and> closedFrom n (snd (parse t h)) \<and>
     (\<forall>b. fst (parse t h) = Ref b \<longrightarrow> n \<le> b)"
  and parseElements_frame:
  "n \<le> length h \<Longrightarrow> closedFrom n h \<Longrightarrow>
     unchanged h (snd (parseElements ts h)) \<and> closedFrom n (snd (parseElements ts h)) \<and>
     (\<forall>b. Ref b \<in> set (fst (parseElements ts h)) \<longrightarrow> n \<le> b)"
  and parseMembers_frame:
  "n \<le> length h \<Longrightarrow> closedFrom n h \<Longrightarrow>
     unchanged h (snd (parseMembers ms h)) \<and> closedFrom n (snd (parseMembers ms h)) \<and>
     (\<forall>b. Ref b \<in> snd ` set (fst (parseMembers ms h)) \<longrightarrow> n \<le> b)"
proof (induction t h and ts h and ms h rule: parse_parseElements_parseMembers.induct)
  case (5 ts h)
  obtain vs h' where p: "parseElements ts h = (vs, h')" by (cases "parseElements ts h")
  from 5 p have u: "unchanged h h'" and c: "closedFrom n h'"
    and r: "\<forall>b. Ref b \<in> set vs \<longrightarrow> n \<le> b"
    by auto
  from u have l: "length h \<le> length h'" by (rule unchanged_length)
  from u have "unchanged h (h' @ [ArrCell vs])"
    by (blast intro: unchanged_trans unchanged_append)
  moreover from c r have "closedFrom n (h' @ [ArrCell vs])"
    by (intro closedFrom_append) auto
  ultimately show ?case
    using p l 5(2) by simp
next
  case (6 ms h)
  obtain fs h' where p: "parseMembers ms h = (fs, h')" by (cases "parseMembers ms h")
  from 6 p have u: "unchanged h h'" and c: "closedFrom n h'"
    and r: "\<forall>b. Ref b \<in> snd ` set fs \<longrightarrow> n \<le> b"
    by auto
  from u have l: "length h \<le> length h'" by (rule unchanged_length)
  from u have "unchanged h (h' @ [ObjCell fs])"
    by (blast intro: unchanged_trans unchanged_append)
  moreover from c r have "closedFrom n (h' @ [ObjCell fs])"
    by (intro closedFrom_append) auto
  ultimately show ?case
    using p l 6(2) by simp
next
  case (8 t ts h)
  obtain v h' where p: "parse t h = (v, h')" by (cases "parse t h")
  obtain vs h'' where q: "parseElements ts h' = (vs, h'')" by (cases "parseElements ts h'")
  from 8(1) [OF 8(3,4)] p have u: "unchanged h h'" and c: "closedFrom n h'"
    and r: "\<forall>b. v = Ref b \<longrightarrow> n \<le> b"
    by auto
  from u 8(3) have l: "n \<le> length h'" by (auto dest: unchanged_length)
  from 8(2) [OF p [symmetric] l c] q have u': "unchanged h' h''" and c': "closedFrom n h''"
    and r': "\<forall>b. Ref b \<in> set vs \<longrightarrow> n \<le> b"
    by auto
  from u u' have "unchanged h h''" by (rule unchanged_trans)
  with c' r r' p q show ?case by auto
next
  case (10 k t ms h)
  obtain v h' where p: "parse t h = (v, h')" by (cases "parse t h")
  obtain fs h'' where q: "parseMembers ms h' = (fs, h'')" by (cases "parseMembers ms h'")
  from 10(1) [OF 10(3,4)] p have u: "unchanged h h'" and c: "closedFrom n h'"
    and r: "\<forall>b. v = Ref b \<longrightarrow> n \<le> b"
    by auto
  from u 10(3) have l: "n \<le> length h'" by (auto dest: unchanged_length)
  from 10(2) [OF p [symmetric] l c] q have u': "unchanged h' h''" and c': "closedFrom n h''"
    and r': "\<forall>b. Ref b \<in> snd ` set fs \<longrightarrow> n \<le> b"
    by auto
  from u u' have "unchanged h h''" by (rule unchanged_trans)
  with c' r r' p q show ?case by auto
qed (simp_all add: unchanged_refl)

lemma update_range: "snd ` set (AList.update k v fs) \<subseteq> insert v (snd ` set fs)"
  by (induction fs) auto

lemma assignCell_refs:
  assumes "assignCell c k v = Inr c'" and "Ref b \<in> refsOf c'"
  shows "Ref b \<in> refsOf c \<or> v = Ref b"
proof (cases c)
  case (ObjCell fs)
  with assms have "Ref b \<in> snd ` set (AList.update k v fs)" by auto
  then have "Ref b \<in> insert v (snd ` set fs)"
    using update_range [of k v fs] by blast
  with ObjCell show ?thesis by auto
next
  case (ArrCell vs)
  with assms show ?thesis
    by (auto split: option.splits if_splits dest: set_update_subset_insert [THEN subsetD])
qed

lemma cellProp_refs: "cellProp c k = Ref b \<Longrightarrow> Ref b \<in> refsOf c"
proof (cases c)
  case (ObjCell fs)
  assume "cellProp c k = Ref b"
  with ObjCell have "map_of fs k = Some (Ref b)"
    by (auto split: option.splits)
  then have "(k, Ref b) \<in> set fs" by (rule map_of_SomeD)
  then have "Ref b \<in> snd ` set fs" by force
  with ObjCell show ?thesis by simp
next
  case (ArrCell vs)
  assume "cellProp c k = Ref b"
  with ArrCell obtain i where "i < length vs" and "vs ! i = Ref b"
    by (auto split: option.splits if_splits)
  then have "Ref b \<in> set vs"
    by (metis nth_mem)
  with ArrCell show ?thesis by simp
qed

lemma assignValueS_frame:
  assumes "assignValueS h a k v = (out, h')" and "n \<le> a" and "closedFrom n h"
    and "\<forall>b. v = Ref b \<longrightarrow> n \<le> b"
  shows "length h' = length h \<and> take n h' = take n h \<and> closedFrom n h'"
proof (cases "length h \<le> a")
  case True
  with assms show ?thesis
    by (auto simp: assignValueS_def)
next
  case False
  show ?thesis
  proof (cases "assignCell (h ! a) k v")
    case (Inl e)
    with False assms show ?thesis
      by (auto simp: assignValueS_def)
  next
    case (Inr c)
    with False assms(1) have h': "h' = h[a := c]"
      by (simp add: assignValueS_def)
    have "\<forall>b. Ref b \<in> refsOf c \<longrightarrow> n \<le> b"
    proof (intro allI impI)
      fix b assume "Ref b \<in> refsOf c"
      with Inr have "Ref b \<in> refsOf (h ! a) \<or> v = Ref b"
        by (rule assignCell_refs)
      moreover from False have "a < length h" by simp
      ultimately show "n \<le> b"
        using assms(2-4) unfolding closedFrom_def by blast
    qed
    with assms(3) have "closedFrom n h'"
      unfolding h' by (rule closedFrom_update)
    with assms(2) show ?thesis
      by (simp add: h' take_update_cancel)
  qed
qed

lemma assignValueS_last:
  assumes "assignValueS h a k v = (out, h')" and "n \<le> a"
  shows "length h' = length h \<and> take n h' = take n h"
  using assms
  by (auto simp: assignValueS_def take_update_cancel split: if_splits sum.splits)

lemma baseSetS_frame:
  "baseSetS h nested ks v = (out, h') \<Longrightarrow> n \<le> nested \<Longrightarrow> n \<le> length h \<Longrightarrow>
     closedFrom n h \<Longrightarrow> length h \<le> length h' \<and> take n h' = take n h"
proof (induction ks arbitrary: h nested)
  case Nil
  then show ?case by simp
next
  case (Cons key rest)
  show ?case
  proof (cases "protoKey key")
    case True
    with Cons.prems show ?thesis by simp
  next
    case False
    note np = this
    show ?thesis
    proof (cases "rest = []")
      case True
      with np Cons.prems have "assignValueS h nested key v = (out, h')" by simp
      from assignValueS_last [OF this Cons.prems(2)] show ?thesis by simp
    next
      case False
      note nr = this
      show ?thesis
      proof (cases "\<exists>a. getPropS h (Ref nested) key = Ref a")
        case True
        then obtain a where g: "getPropS h (Ref nested) key = Ref a" by blast
        then have nl: "nested < length h" and "cellProp (h ! nested) key = Ref a"
          by (auto split: if_splits)
        then have "Ref a \<in> refsOf (h ! nested)"
          by (auto dest: cellProp_refs)
        with Cons.prems(2,4) nl have na: "n \<le> a"
          unfolding closedFrom_def by blast
        obtain o1 h1 where a1: "assignValueS h nested key (Ref a) = (o1, h1)"
          by (cases "assignValueS h nested key (Ref a)")
        from assignValueS_frame [OF a1 Cons.prems(2,4)] na
        have f1: "length h1 = length h" "take n h1 = take n h" "closedFrom n h1"
          by auto
        show ?thesis
        proof (cases o1)
          case (Some e)
          with Cons.prems(1) np nr g a1 have "h' = h1" by simp
          with f1 show ?thesis by simp
        next
          case None
          with Cons.prems(1) np nr g a1 have r: "baseSetS h1 a rest v = (out, h')" by simp
          from Cons.prems(3) f1 have "n \<le> length h1" by simp
          from Cons.IH [OF r na this f1(3)] f1 show ?thesis by simp
        qed
      next
        case False
        let ?h0 = "h @ [if isIndex (hd rest) then ArrCell [] else ObjCell []]"
        from Cons.prems(4) have c0: "closedFrom n ?h0"
          by (intro closedFrom_append) auto
        obtain o1 h1 where a1: "assignValueS ?h0 nested key (Ref (length h)) = (o1, h1)"
          by (cases "assignValueS ?h0 nested key (Ref (length h))")
        from assignValueS_frame [OF a1 Cons.prems(2) c0] Cons.prems(3)
        have f1: "length h1 = Suc (length h)" "take n h1 = take n h" "closedFrom n h1"
          by auto
        from Cons.prems(1) np nr False a1
        have r: "(\<exists>e. o1 = Some e \<and> h' = h1) \<or>
            (o1 = None \<and> baseSetS h1 (length h) rest v = (out, h'))"
          by (cases "getPropS h (Ref nested) key"; cases o1) auto
        then show ?thesis
        proof
          assume "\<exists>e. o1 = Some e \<and> h' = h1"
          with f1 show ?thesis by auto
        next
          assume "o1 = None \<and> baseSetS h1 (length h) rest v = (out, h')"
          then have r': "baseSetS h1 (length h) rest v = (out, h')" by simp
          from Cons.prems(3) f1 have "n \<le> length h1" by simp
          from Cons.IH [OF r' Cons.prems(3) this f1(3)] f1 show ?thesis by simp
        qed
      qed
    qed
  qed
qed

lemma lodash_setS_frame:
  assumes "lodash_setS h object p v = (out, h')" and "n \<le> length h" and "closedFrom n h"
    and "\<forall>b. object = Ref b \<longrightarrow> n \<le> b"
  shows "length h \<le> length h' \<and> take n h' = take n h"
proof (cases object)
  case (Ref a)
  with assms(1) have "baseSetS h a (castPathS p h (Ref a)) v = (out, h')" by simp
  moreover from assms(4) Ref have "n \<le> a" by simp
  ultimately show ?thesis
    using assms(2,3) by (rule baseSetS_frame)
qed (use assms(1) in simp_all)

lemma closedFrom_length: "closedFrom (length h) h"
  by (simp add: closedFrom_def)

lemma stringify_Ref:
  "stringify n h (Ref a) = Inr (Some t) \<Longrightarrow> (\<exists>ts. t = TArr ts) \<or> (\<exists>ms. t = TObj ms)"
  by (cases n) (auto split: if_splits cell.splits sum.splits)

lemma parse_object_Ref: "(\<exists>ts. t = TArr ts) \<or> (\<exists>ms. t = TObj ms) \<Longrightarrow> isRef (fst (parse t h))"
  by (auto split: prod.splits)

lemma deepCloneS_frame:
  assumes "deepCloneS h v = (out, h')"
  shows "unchanged h h' \<and> closedFrom (length h) h' \<and> newObject h v out"
proof (cases "stringify (Suc (length h)) h v")
  case (Inl e)
  with assms show ?thesis
    by (auto simp: deepCloneS_def unchanged_refl closedFrom_length newObject_def)
next
  case (Inr r)
  show ?thesis
  proof (cases r)
    case None
    with Inr assms show ?thesis
      by (auto simp: deepCloneS_def unchanged_refl closedFrom_length newObject_def)
  next
    case (Some t)
    with Inr assms have o: "out = Inr (fst (parse t h))" and h': "h' = snd (parse t h)"
      by (auto simp: deepCloneS_def split: prod.splits)
    from parse_frame [OF le_refl closedFrom_length, of h t]
    have f: "unchanged h h'" "closedFrom (length h) h'"
      and r: "\<forall>b. fst (parse t h) = Ref b \<longrightarrow> length h \<le> b"
      unfolding h' by auto
    have "isRef v \<Longrightarrow> isRef (fst (parse t h))"
    proof -
      assume "isRef v"
      then obtain a where "v = Ref a" by (cases v) auto
      with Inr Some have "stringify (Suc (length h)) h (Ref a) = Inr (Some t)"
        by (simp del: stringify.simps)
      then have "(\<exists>ts. t = TArr ts) \<or> (\<exists>ms. t = TObj ms)"
        by (rule stringify_Ref)
      then show ?thesis by (rule parse_object_Ref)
    qed
    with r o have "newObject h v out"
      by (cases "fst (parse t h)") (auto simp: newObject_def)
    with f show ?thesis by simp
  qed
qed

lemma write_frame:
  assumes c: "deepCloneS h currentConfig = (Inr newUserConfig, h1)"
    and s: "lodash_setS h1 newUserConfig p v = (o2, h2)"
  shows "unchanged h h2"
proof -
  from deepCloneS_frame [OF c]
  have u: "unchanged h h1" and cl: "closedFrom (length h) h1"
    and n: "newObject h currentConfig (Inr newUserConfig)"
    by auto
  from u have l: "length h \<le> length h1" by (rule unchanged_length)
  from n have "\<forall>b. newUserConfig = Ref b \<longrightarrow> length h \<le> b"
    by (auto simp: newObject_def)
  from lodash_setS_frame [OF s l cl this] u show ?thesis
    by (simp add: unchanged_def)
qed

lemma setSettingS_frame:
  "unchanged h (snd (setSettingS propertyPath blockName newValue h currentConfig)) \<and>
   newObject h currentConfig (fst (setSettingS propertyPath blockName newValue h currentConfig))"
proof -
  obtain o1 h1 where c: "deepCloneS h currentConfig = (o1, h1)"
    by (cases "deepCloneS h currentConfig")
  from deepCloneS_frame [OF c] have u: "unchanged h h1" and n: "newObject h currentConfig o1"
    by auto
  show ?thesis
  proof (cases o1)
    case (Inl e)
    with c u show ?thesis
      by (simp add: setSettingS_def newObject_def)
  next
    case (Inr newUserConfig)
    obtain o2 h2 where s: "lodash_setS h1 newUserConfig (contextualPath propertyPath blockName)
        newValue = (o2, h2)"
      by (cases "lodash_setS h1 newUserConfig (contextualPath propertyPath blockName) newValue")
    from write_frame [OF c [unfolded Inr] s] have "unchanged h h2" .
    with c Inr s n show ?thesis
      by (cases o2) (simp_all add: setSettingS_def newObject_def)
  qed
qed

lemma setStyleS_frame:
  "unchanged h (snd (setStyleS pv mergedConfig path blockName d newValue h currentConfig)) \<and>
   newObject h currentConfig
     (fst (setStyleS pv mergedConfig path blockName d newValue h currentConfig))"
proof -
  obtain o1 h1 where c: "deepCloneS h currentConfig = (o1, h1)"
    by (cases "deepCloneS h currentConfig")
  from deepCloneS_frame [OF c] have u: "unchanged h h1" and n: "newObject h currentConfig o1"
    by auto
  show ?thesis
  proof (cases o1)
    case (Inl e)
    with c u show ?thesis
      by (simp add: setStyleS_def newObject_def)
  next
    case (Inr newUserConfig)
    show ?thesis
    proof (cases "d \<and> (mergedConfig = RUndef \<or> mergedConfig = RNull)")
      case True
      with c Inr u show ?thesis
        by (simp add: setStyleS_def newObject_def)
    next
      case False
      define v where "v = (if d
        then pv h1 (getPropS h1 mergedConfig ''settings'') blockName path newValue
        else newValue)"
      obtain o2 h2 where s: "lodash_setS h1 newUserConfig (finalPath path blockName) v = (o2, h2)"
        by (cases "lodash_setS h1 newUserConfig (finalPath path blockName) v")
      from write_frame [OF c [unfolded Inr] s] have "unchanged h h2" .
      with c Inr s n False show ?thesis
        by (cases o2) (auto simp: setStyleS_def newObject_def v_def)
    qed
  qed
qed

text \<open>
  What a write returns. The copy is what \<^verbatim>\<open>JSON.parse\<close> builds: a tree of new cells, each
  below its parent, the cells of two members apart. \<^verbatim>\<open>set\<close> changes cells on one path of
  it and adds cells at the end, so that the members beside the path still hold their
  values, and the object at the root holds what \<^verbatim>\<open>set\<close> computes on values.
\<close>

lemma holds_JObj:
  "holds (JObj m) h v =
     (\<exists>a fs. v = Ref a \<and> a < length h \<and> h ! a = ObjCell fs \<and>
        (\<forall>k. rel_option (\<lambda>c w. holds c h w) (fmlookup m k) (map_of fs k)))"
  by (auto simp: fmrel_iff option.rel_map fmlookup_of_list split: ref_val.splits cell.splits)

lemma holds_JArr:
  "holds (JArr cs) h v =
     (\<exists>a vs. v = Ref a \<and> a < length h \<and> h ! a = ArrCell vs \<and>
        list_all2 (\<lambda>c w. holds c h w) cs vs)"
  by (auto simp: list.rel_map split: ref_val.splits cell.splits)

declare holds.simps(6,7) [simp del]

lemma holds_isObject: "holds c h v \<Longrightarrow> isObject c = isRef v"
  by (cases c) (auto simp: holds_JArr holds_JObj)

lemma holds_Ref:
  "holds c h (Ref a) \<Longrightarrow> a < length h \<and> isObject c"
  by (cases c) (auto simp: holds_JArr holds_JObj)

lemma unchanged_nth: "unchanged h h' \<Longrightarrow> x < length h \<Longrightarrow> h' ! x = h ! x"
  unfolding unchanged_def by (metis nth_take)

lemma holds_frame:
  "holds c h v \<Longrightarrow> unchanged h h' \<Longrightarrow> holds c h' v"
proof (induction c arbitrary: v)
  case (JArr cs)
  from JArr.prems(1) obtain a vs where v: "v = Ref a" and a: "a < length h"
    and c: "h ! a = ArrCell vs" and l: "list_all2 (\<lambda>c w. holds c h w) cs vs"
    unfolding holds_JArr by blast
  from JArr.prems(2) a have l': "a < length h'" and c': "h' ! a = h ! a"
    by (auto dest: unchanged_length simp: unchanged_nth)
  have "list_all2 (\<lambda>c w. holds c h' w) cs vs"
    using l JArr.IH JArr.prems(2)
    by (auto simp: list_all2_conv_all_nth)
  with v l' c' c show ?case
    unfolding holds_JArr by simp
next
  case (JObj m)
  from JObj.prems(1) obtain a fs where v: "v = Ref a" and a: "a < length h"
    and c: "h ! a = ObjCell fs"
    and l: "\<forall>k. rel_option (\<lambda>c w. holds c h w) (fmlookup m k) (map_of fs k)"
    unfolding holds_JObj by blast
  from JObj.prems(2) a have l': "a < length h'" and c': "h' ! a = h ! a"
    by (auto dest: unchanged_length simp: unchanged_nth)
  have "\<forall>k. rel_option (\<lambda>c w. holds c h' w) (fmlookup m k) (map_of fs k)"
  proof
    fix k
    from l have r: "rel_option (\<lambda>c w. holds c h w) (fmlookup m k) (map_of fs k)" by simp
    show "rel_option (\<lambda>c w. holds c h' w) (fmlookup m k) (map_of fs k)"
    proof (cases "fmlookup m k")
      case None
      with r show ?thesis by (cases "map_of fs k") auto
    next
      case (Some c0)
      with r obtain w where w: "map_of fs k = Some w" and hw: "holds c0 h w"
        by (cases "map_of fs k") auto
      from Some have "c0 \<in> fmran' m" by (rule fmran'I)
      from JObj.IH [OF this hw JObj.prems(2)] Some w show ?thesis by simp
    qed
  qed
  with v l' c' c show ?case
    unfolding holds_JObj by simp
qed simp_all

lemma parsed_local:
  "parsed t h lo r \<Longrightarrow> length h \<le> length h' \<Longrightarrow>
     (\<forall>x. lo \<le> x \<and> x < lo + cells t \<longrightarrow> h' ! x = h ! x) \<Longrightarrow> parsed t h' lo r"
  and parsedElements_local:
  "parsedElements ts h lo vs \<Longrightarrow> length h \<le> length h' \<Longrightarrow>
     (\<forall>x. lo \<le> x \<and> x < lo + cellsL ts \<longrightarrow> h' ! x = h ! x) \<Longrightarrow> parsedElements ts h' lo vs"
  and parsedMembers_local:
  "parsedMembers ms h lo fs \<Longrightarrow> length h \<le> length h' \<Longrightarrow>
     (\<forall>x. lo \<le> x \<and> x < lo + cellsM ms \<longrightarrow> h' ! x = h ! x) \<Longrightarrow> parsedMembers ms h' lo fs"
proof (induction t h lo r and ts h lo vs and ms h lo fs
    rule: parsed_parsedElements_parsedMembers.induct)
  case (5 ts h lo r)
  from 5(2) obtain vs where c: "h ! (lo + cellsL ts) = ArrCell vs"
    and p: "parsedElements ts h lo vs" and r: "r = Ref (lo + cellsL ts)"
    and l: "lo + cellsL ts < length h"
    by (auto split: cell.splits)
  from 5(4) have c': "h' ! (lo + cellsL ts) = h ! (lo + cellsL ts)" by simp
  from 5(4) have "\<forall>x. lo \<le> x \<and> x < lo + cellsL ts \<longrightarrow> h' ! x = h ! x" by simp
  from 5(1) [OF c p 5(3) this] c c' r l 5(3) show ?case by simp
next
  case (6 ms h lo r)
  from 6(2) obtain fs where c: "h ! (lo + cellsM ms) = ObjCell fs"
    and p: "parsedMembers ms h lo fs" and r: "r = Ref (lo + cellsM ms)"
    and l: "lo + cellsM ms < length h"
    by (auto split: cell.splits)
  from 6(4) have c': "h' ! (lo + cellsM ms) = h ! (lo + cellsM ms)" by simp
  from 6(4) have "\<forall>x. lo \<le> x \<and> x < lo + cellsM ms \<longrightarrow> h' ! x = h ! x" by simp
  from 6(1) [OF c p 6(3) this] c c' r l 6(3) show ?case by simp
next
  case (8 t ts h lo vs)
  from 8(3) obtain v vs' where vs: "vs = v # vs'" and p: "parsed t h lo v"
    and q: "parsedElements ts h (lo + cells t) vs'"
    by (auto split: list.splits)
  from 8(5) have a: "\<forall>x. lo \<le> x \<and> x < lo + cells t \<longrightarrow> h' ! x = h ! x"
    and b: "\<forall>x. lo + cells t \<le> x \<and> x < lo + cells t + cellsL ts \<longrightarrow> h' ! x = h ! x"
    by auto
  from 8(1) [OF vs p 8(4) a] 8(2) [OF vs q 8(4) b] vs show ?case by simp
next
  case (10 k t ms h lo fs)
  from 10(3) obtain v fs' where fs: "fs = (k, v) # fs'" and p: "parsed t h lo v"
    and q: "parsedMembers ms h (lo + cells t) fs'"
    by (auto split: list.splits)
  from 10(5) have a: "\<forall>x. lo \<le> x \<and> x < lo + cells t \<longrightarrow> h' ! x = h ! x"
    and b: "\<forall>x. lo + cells t \<le> x \<and> x < lo + cells t + cellsM ms \<longrightarrow> h' ! x = h ! x"
    by auto
  from 10(1) [OF fs refl p 10(4) a] 10(2) [OF fs refl q 10(4) b] fs show ?case by simp
qed simp_all

lemma map_of_jsonValue:
  "map_of (map (map_prod id jsonValue) ms) k = map_option jsonValue (map_of ms k)"
  by (induction ms) auto

lemma jsonValue_TObj:
  "jsonValue (TObj ms) = JObj m \<Longrightarrow> fmlookup m k = map_option jsonValue (map_of ms k)"
  by (auto simp: fmlookup_of_list map_of_jsonValue)

lemma parsed_holds:
  "parsed t h lo r \<Longrightarrow> holds (jsonValue t) h r"
  and parsedElements_holds:
  "parsedElements ts h lo vs \<Longrightarrow> list_all2 (\<lambda>c w. holds c h w) (map jsonValue ts) vs"
  and parsedMembers_holds:
  "parsedMembers ms h lo fs \<Longrightarrow>
     \<forall>k. rel_option (\<lambda>t w. holds (jsonValue t) h w) (map_of ms k) (map_of fs k)"
proof (induction t h lo r and ts h lo vs and ms h lo fs
    rule: parsed_parsedElements_parsedMembers.induct)
  case (5 ts h lo r)
  from 5(2) obtain vs where c: "h ! (lo + cellsL ts) = ArrCell vs"
    and p: "parsedElements ts h lo vs" and r: "r = Ref (lo + cellsL ts)"
    and l: "lo + cellsL ts < length h"
    by (auto split: cell.splits)
  from 5(1) [OF c p] c r l show ?case
    unfolding jsonValue.simps holds_JArr by simp
next
  case (6 ms h lo r)
  from 6(2) obtain fs where c: "h ! (lo + cellsM ms) = ObjCell fs"
    and p: "parsedMembers ms h lo fs" and r: "r = Ref (lo + cellsM ms)"
    and l: "lo + cellsM ms < length h"
    by (auto split: cell.splits)
  from 6(1) [OF c p] have "\<forall>k. rel_option (\<lambda>c w. holds c h w)
      (fmlookup (fmap_of_list (map (map_prod id jsonValue) ms)) k) (map_of fs k)"
    by (simp only: fmlookup_of_list map_of_jsonValue option.rel_map simp_thms)
  with c r l show ?case
    unfolding jsonValue.simps holds_JObj by blast
next
  case (8 t ts h lo vs)
  then show ?case by (auto split: list.splits)
next
  case (10 k' t ms h lo fs)
  then show ?case by (auto split: list.splits)
qed simp_all

lemma unchanged_local:
  "unchanged h h' \<Longrightarrow> lo + n \<le> length h \<Longrightarrow> \<forall>x. lo \<le> x \<and> x < lo + n \<longrightarrow> h' ! x = h ! x"
  by (simp add: unchanged_nth)

lemma parse_parsed:
  "parse t h = (r, h1) \<Longrightarrow>
     length h1 = length h + cells t \<and> unchanged h h1 \<and> parsed t h1 (length h) r"
  and parseElements_parsed:
  "parseElements ts h = (vs, h1) \<Longrightarrow>
     length h1 = length h + cellsL ts \<and> unchanged h h1 \<and> parsedElements ts h1 (length h) vs"
  and parseMembers_parsed:
  "parseMembers ms h = (fs, h1) \<Longrightarrow>
     length h1 = length h + cellsM ms \<and> unchanged h h1 \<and> parsedMembers ms h1 (length h) fs"
proof (induction t h and ts h and ms h arbitrary: r h1 and vs h1 and fs h1
    rule: parse_parseElements_parseMembers.induct)
  case (5 ts h)
  obtain vs h' where p: "parseElements ts h = (vs, h')" by (cases "parseElements ts h")
  from 5(1) [OF p] have l: "length h' = length h + cellsL ts" and u: "unchanged h h'"
    and q: "parsedElements ts h' (length h) vs"
    by auto
  from 5(2) p have r: "r = Ref (length h')" and h1: "h1 = h' @ [ArrCell vs]" by auto
  have "parsedElements ts (h' @ [ArrCell vs]) (length h) vs"
    using q by (rule parsedElements_local) (auto simp: l nth_append)
  moreover from u have "unchanged h (h' @ [ArrCell vs])"
    by (blast intro: unchanged_trans unchanged_append)
  ultimately show ?case
    using r h1 l by (simp add: nth_append)
next
  case (6 ms h)
  obtain fs h' where p: "parseMembers ms h = (fs, h')" by (cases "parseMembers ms h")
  from 6(1) [OF p] have l: "length h' = length h + cellsM ms" and u: "unchanged h h'"
    and q: "parsedMembers ms h' (length h) fs"
    by auto
  from 6(2) p have r: "r = Ref (length h')" and h1: "h1 = h' @ [ObjCell fs]" by auto
  have "parsedMembers ms (h' @ [ObjCell fs]) (length h) fs"
    using q by (rule parsedMembers_local) (auto simp: l nth_append)
  moreover from u have "unchanged h (h' @ [ObjCell fs])"
    by (blast intro: unchanged_trans unchanged_append)
  ultimately show ?case
    using r h1 l by (simp add: nth_append)
next
  case (8 t ts h)
  obtain v h' where p: "parse t h = (v, h')" by (cases "parse t h")
  obtain vs' h'' where q: "parseElements ts h' = (vs', h'')" by (cases "parseElements ts h'")
  from 8(1) [OF p] have l: "length h' = length h + cells t" and u: "unchanged h h'"
    and a: "parsed t h' (length h) v"
    by auto
  from 8(2) [OF p [symmetric] q] have l': "length h'' = length h' + cellsL ts"
    and u': "unchanged h' h''" and b: "parsedElements ts h'' (length h') vs'"
    by auto
  from 8(3) p q have vs: "vs = v # vs'" and h1: "h1 = h''" by auto
  have "parsed t h'' (length h) v"
    using a by (rule parsed_local) (use u' l l' in \<open>auto simp: unchanged_nth\<close>)
  with b l l' u u' vs h1 show ?case
    by (auto intro: unchanged_trans)
next
  case (10 k t ms h)
  obtain v h' where p: "parse t h = (v, h')" by (cases "parse t h")
  obtain fs' h'' where q: "parseMembers ms h' = (fs', h'')" by (cases "parseMembers ms h'")
  from 10(1) [OF p] have l: "length h' = length h + cells t" and u: "unchanged h h'"
    and a: "parsed t h' (length h) v"
    by auto
  from 10(2) [OF p [symmetric] q] have l': "length h'' = length h' + cellsM ms"
    and u': "unchanged h' h''" and b: "parsedMembers ms h'' (length h') fs'"
    by auto
  from 10(3) p q have fs: "fs = (k, v) # fs'" and h1: "h1 = h''" by auto
  have "parsed t h'' (length h) v"
    using a by (rule parsed_local) (use u' l l' in \<open>auto simp: unchanged_nth\<close>)
  with b l l' u u' fs h1 show ?case
    by (auto intro: unchanged_trans)
qed (auto simp: unchanged_refl)

lemma parsedMembers_member:
  "parsedMembers ms h lo fs \<Longrightarrow> map_of fs key = Some v \<Longrightarrow>
     \<exists>t b. map_of ms key = Some t \<and> parsed t h b v \<and> lo \<le> b \<and> b + cells t \<le> lo + cellsM ms \<and>
       (\<forall>h'. length h \<le> length h' \<longrightarrow>
          (\<forall>x. lo \<le> x \<and> x < lo + cellsM ms \<and> \<not> (b \<le> x \<and> x < b + cells t) \<longrightarrow> h' ! x = h ! x) \<longrightarrow>
          (\<forall>k'. k' \<noteq> key \<longrightarrow>
             rel_option (\<lambda>t w. holds (jsonValue t) h' w) (map_of ms k') (map_of fs k')))"
proof (induction ms arbitrary: lo fs)
  case Nil
  then show ?case by simp
next
  case (Cons m ms)
  obtain k1 t1 where m: "m = (k1, t1)" by (cases m)
  from Cons.prems(1) m obtain v1 fs' where fs: "fs = (k1, v1) # fs'" and p: "parsed t1 h lo v1"
    and q: "parsedMembers ms h (lo + cells t1) fs'"
    by (auto split: list.splits)
  show ?case
  proof (cases "k1 = key")
    case True
    with Cons.prems(2) fs have v: "v1 = v" by simp
    have "\<forall>h'. length h \<le> length h' \<longrightarrow>
          (\<forall>x. lo \<le> x \<and> x < lo + cellsM (m # ms) \<and> \<not> (lo \<le> x \<and> x < lo + cells t1) \<longrightarrow> h' ! x = h ! x) \<longrightarrow>
          (\<forall>k'. k' \<noteq> key \<longrightarrow>
             rel_option (\<lambda>t w. holds (jsonValue t) h' w) (map_of (m # ms) k') (map_of fs k'))"
    proof (intro allI impI)
      fix h' k'
      assume l: "length h \<le> length h'"
        and a: "\<forall>x. lo \<le> x \<and> x < lo + cellsM (m # ms) \<and> \<not> (lo \<le> x \<and> x < lo + cells t1) \<longrightarrow> h' ! x = h ! x"
        and k': "k' \<noteq> key"
      have "parsedMembers ms h' (lo + cells t1) fs'"
        using q l by (rule parsedMembers_local) (use a m in auto)
      from parsedMembers_holds [OF this] k' True m fs
      show "rel_option (\<lambda>t w. holds (jsonValue t) h' w) (map_of (m # ms) k') (map_of fs k')"
        by simp
    qed
    with True m p v show ?thesis
      by (intro exI [of _ t1] exI [of _ lo]) simp
  next
    case False
    with Cons.prems(2) fs have "map_of fs' key = Some v" by simp
    from Cons.IH [OF q this] obtain t b where t: "map_of ms key = Some t"
      and pb: "parsed t h b v" and lb: "lo + cells t1 \<le> b"
      and ub: "b + cells t \<le> lo + cells t1 + cellsM ms"
      and r: "\<forall>h'. length h \<le> length h' \<longrightarrow>
          (\<forall>x. lo + cells t1 \<le> x \<and> x < lo + cells t1 + cellsM ms \<and> \<not> (b \<le> x \<and> x < b + cells t) \<longrightarrow> h' ! x = h ! x) \<longrightarrow>
          (\<forall>k'. k' \<noteq> key \<longrightarrow>
             rel_option (\<lambda>t w. holds (jsonValue t) h' w) (map_of ms k') (map_of fs' k'))"
      by blast
    have "\<forall>h'. length h \<le> length h' \<longrightarrow>
          (\<forall>x. lo \<le> x \<and> x < lo + cellsM (m # ms) \<and> \<not> (b \<le> x \<and> x < b + cells t) \<longrightarrow> h' ! x = h ! x) \<longrightarrow>
          (\<forall>k'. k' \<noteq> key \<longrightarrow>
             rel_option (\<lambda>t w. holds (jsonValue t) h' w) (map_of (m # ms) k') (map_of fs k'))"
    proof (intro allI impI)
      fix h' k'
      assume l: "length h \<le> length h'"
        and a: "\<forall>x. lo \<le> x \<and> x < lo + cellsM (m # ms) \<and> \<not> (b \<le> x \<and> x < b + cells t) \<longrightarrow> h' ! x = h ! x"
        and k': "k' \<noteq> key"
      show "rel_option (\<lambda>t w. holds (jsonValue t) h' w) (map_of (m # ms) k') (map_of fs k')"
      proof (cases "k' = k1")
        case True
        have "parsed t1 h' lo v1"
          using p l by (rule parsed_local) (use a lb m in auto)
        then have "holds (jsonValue t1) h' v1" by (rule parsed_holds)
        with True m fs show ?thesis by simp
      next
        case False
        from a m have "\<forall>x. lo + cells t1 \<le> x \<and> x < lo + cells t1 + cellsM ms \<and>
            \<not> (b \<le> x \<and> x < b + cells t) \<longrightarrow> h' ! x = h ! x"
          by auto
        with r l k' have "rel_option (\<lambda>t w. holds (jsonValue t) h' w) (map_of ms k') (map_of fs' k')"
          by blast
        with False m fs show ?thesis by simp
      qed
    qed
    with False m t pb lb ub show ?thesis
      by (intro exI [of _ t] exI [of _ b]) auto
  qed
qed

lemma parsedElements_element:
  "parsedElements ts h lo vs \<Longrightarrow> i < length vs \<Longrightarrow>
     \<exists>b. parsed (ts ! i) h b (vs ! i) \<and> lo \<le> b \<and> b + cells (ts ! i) \<le> lo + cellsL ts \<and>
       (\<forall>h'. length h \<le> length h' \<longrightarrow>
          (\<forall>x. lo \<le> x \<and> x < lo + cellsL ts \<and> \<not> (b \<le> x \<and> x < b + cells (ts ! i)) \<longrightarrow> h' ! x = h ! x) \<longrightarrow>
          (\<forall>j < length vs. j \<noteq> i \<longrightarrow> holds (jsonValue (ts ! j)) h' (vs ! j)))"
proof (induction ts arbitrary: lo vs i)
  case Nil
  then show ?case by simp
next
  case (Cons t1 ts)
  from Cons.prems(1) obtain v1 vs' where vs: "vs = v1 # vs'" and p: "parsed t1 h lo v1"
    and q: "parsedElements ts h (lo + cells t1) vs'"
    by (auto split: list.splits)
  show ?case
  proof (cases i)
    case 0
    have "\<forall>h'. length h \<le> length h' \<longrightarrow>
          (\<forall>x. lo \<le> x \<and> x < lo + cellsL (t1 # ts) \<and> \<not> (lo \<le> x \<and> x < lo + cells t1) \<longrightarrow> h' ! x = h ! x) \<longrightarrow>
          (\<forall>j < length vs. j \<noteq> 0 \<longrightarrow> holds (jsonValue ((t1 # ts) ! j)) h' (vs ! j))"
    proof (intro allI impI)
      fix h' j
      assume l: "length h \<le> length h'"
        and a: "\<forall>x. lo \<le> x \<and> x < lo + cellsL (t1 # ts) \<and> \<not> (lo \<le> x \<and> x < lo + cells t1) \<longrightarrow> h' ! x = h ! x"
        and j: "j < length vs" "j \<noteq> 0"
      have "parsedElements ts h' (lo + cells t1) vs'"
        using q l by (rule parsedElements_local) (use a in auto)
      then have "list_all2 (\<lambda>c w. holds c h' w) (map jsonValue ts) vs'"
        by (rule parsedElements_holds)
      with j vs show "holds (jsonValue ((t1 # ts) ! j)) h' (vs ! j)"
        by (cases j) (auto simp: list_all2_conv_all_nth)
    qed
    with 0 p vs show ?thesis
      by (intro exI [of _ lo]) simp
  next
    case (Suc i')
    with Cons.prems(2) vs have i': "i' < length vs'" by simp
    from Cons.IH [OF q i'] obtain b where pb: "parsed (ts ! i') h b (vs' ! i')"
      and lb: "lo + cells t1 \<le> b" and ub: "b + cells (ts ! i') \<le> lo + cells t1 + cellsL ts"
      and r: "\<forall>h'. length h \<le> length h' \<longrightarrow>
          (\<forall>x. lo + cells t1 \<le> x \<and> x < lo + cells t1 + cellsL ts \<and>
               \<not> (b \<le> x \<and> x < b + cells (ts ! i')) \<longrightarrow> h' ! x = h ! x) \<longrightarrow>
          (\<forall>j < length vs'. j \<noteq> i' \<longrightarrow> holds (jsonValue (ts ! j)) h' (vs' ! j))"
      by blast
    have "\<forall>h'. length h \<le> length h' \<longrightarrow>
          (\<forall>x. lo \<le> x \<and> x < lo + cellsL (t1 # ts) \<and> \<not> (b \<le> x \<and> x < b + cells (ts ! i')) \<longrightarrow> h' ! x = h ! x) \<longrightarrow>
          (\<forall>j < length vs. j \<noteq> i \<longrightarrow> holds (jsonValue ((t1 # ts) ! j)) h' (vs ! j))"
    proof (intro allI impI)
      fix h' j
      assume l: "length h \<le> length h'"
        and a: "\<forall>x. lo \<le> x \<and> x < lo + cellsL (t1 # ts) \<and> \<not> (b \<le> x \<and> x < b + cells (ts ! i')) \<longrightarrow> h' ! x = h ! x"
        and j: "j < length vs" "j \<noteq> i"
      show "holds (jsonValue ((t1 # ts) ! j)) h' (vs ! j)"
      proof (cases j)
        case 0
        have "parsed t1 h' lo v1"
          using p l by (rule parsed_local) (use a lb in auto)
        then have "holds (jsonValue t1) h' v1" by (rule parsed_holds)
        with 0 vs show ?thesis by simp
      next
        case (Suc j')
        from a have "\<forall>x. lo + cells t1 \<le> x \<and> x < lo + cells t1 + cellsL ts \<and>
            \<not> (b \<le> x \<and> x < b + cells (ts ! i')) \<longrightarrow> h' ! x = h ! x"
          by auto
        with r l have "\<forall>j < length vs'. j \<noteq> i' \<longrightarrow> holds (jsonValue (ts ! j)) h' (vs' ! j)"
          by blast
        with Suc j vs \<open>i = Suc i'\<close> show ?thesis by simp
      qed
    qed
    with Suc pb lb ub vs show ?thesis
      by (intro exI [of _ b]) auto
  qed
qed

lemma parsedElements_length: "parsedElements ts h lo vs \<Longrightarrow> length vs = length ts"
  by (induction ts arbitrary: lo vs) (auto split: list.splits)

lemma unchangedI:
  assumes "length h \<le> length h'" and "\<forall>x < length h. h' ! x = h ! x"
  shows "unchanged h h'"
  unfolding unchanged_def using assms
  by (intro nth_equalityI) auto

lemma getProp_holds:
  assumes "holds c h v"
  shows "holds (getProp c k) h (getPropS h v k)"
proof (cases c)
  case (JArr cs)
  with assms have "holds (JArr cs) h v" by simp
  then obtain a vs where v: "v = Ref a" and a: "a < length h" and c: "h ! a = ArrCell vs"
    and l: "list_all2 (\<lambda>c w. holds c h w) cs vs"
    unfolding holds_JArr by blast
  from l have "length cs = length vs" by (rule list_all2_lengthD)
  with JArr v a c l show ?thesis
    by (auto simp: list_all2_conv_all_nth split: option.splits)
next
  case (JObj m)
  with assms have "holds (JObj m) h v" by simp
  then obtain a fs where v: "v = Ref a" and a: "a < length h" and c: "h ! a = ObjCell fs"
    and l: "\<forall>k. rel_option (\<lambda>c w. holds c h w) (fmlookup m k) (map_of fs k)"
    unfolding holds_JObj by blast
  from l have "rel_option (\<lambda>c w. holds c h w) (fmlookup m k) (map_of fs k)" by simp
  with JObj v a c show ?thesis
    by (cases "fmlookup m k"; cases "map_of fs k") auto
qed (use assms in \<open>auto split: option.splits\<close>)

lemma parsed_Ref:
  "parsed t h b (Ref a) \<Longrightarrow> Suc a = b + cells t \<and> a < length h \<and> b \<le> a"
  by (cases t) auto

lemma assignValueS_Obj:
  "nested < length h \<Longrightarrow> h ! nested = ObjCell fs \<Longrightarrow>
     assignValueS h nested key v = (None, h[nested := ObjCell (AList.update key v fs)])"
  by (simp add: assignValueS_def)

lemma assignValueS_Arr:
  "nested < length h \<Longrightarrow> h ! nested = ArrCell vs \<Longrightarrow> arrayIndex key = Some i \<Longrightarrow>
     assignValueS h nested key v =
       (None, h[nested := ArrCell (if i < length vs then vs[i := v]
                                   else vs @ replicate (i - length vs) RUndef @ [v])])"
  by (simp add: assignValueS_def)

lemma assignValueS_Arr_fail:
  "nested < length h \<Longrightarrow> h ! nested = ArrCell vs \<Longrightarrow> arrayIndex key = None \<Longrightarrow>
     assignValueS h nested key v = (Some OutsideModel, h)"
  by (simp add: assignValueS_def)

lemma baseSetS_step_ref:
  "\<not> protoKey key \<Longrightarrow> rest \<noteq> [] \<Longrightarrow> getPropS h (Ref nested) key = Ref a \<Longrightarrow>
     baseSetS h nested (key # rest) v =
       (case assignValueS h nested key (Ref a) of
          (Some e, h') \<Rightarrow> (Some e, h')
        | (None, h') \<Rightarrow> baseSetS h' a rest v)"
  by simp

lemma baseSetS_step_new:
  "\<not> protoKey key \<Longrightarrow> rest \<noteq> [] \<Longrightarrow> \<not> isRef (getPropS h (Ref nested) key) \<Longrightarrow>
     baseSetS h nested (key # rest) v =
       (case assignValueS (h @ [if isIndex (hd rest) then ArrCell [] else ObjCell []])
               nested key (Ref (length h)) of
          (Some e, h') \<Rightarrow> (Some e, h')
        | (None, h') \<Rightarrow> baseSetS h' (length h) rest v)"
  by (cases "getPropS h (Ref nested) key") simp_all

lemma holds_assigned_object:
  assumes "nested < length h'" and "h' ! nested = ObjCell (AList.update key v fs)"
    and "holds c h' v"
    and "\<forall>k. k \<noteq> key \<longrightarrow> rel_option (\<lambda>t w. holds (jsonValue t) h' w) (map_of ms k) (map_of fs k)"
  shows "holds (JObj (fmupd key c (fmap_of_list (map (map_prod id jsonValue) ms)))) h' (Ref nested)"
  unfolding holds_JObj
proof (intro exI conjI allI)
  show "Ref nested = Ref nested" by simp
  show "nested < length h'" by fact
  show "h' ! nested = ObjCell (AList.update key v fs)" by fact
  fix k
  show "rel_option (\<lambda>c w. holds c h' w)
      (fmlookup (fmupd key c (fmap_of_list (map (map_prod id jsonValue) ms))) k)
      (map_of (AList.update key v fs) k)"
  proof (cases "k = key")
    case True
    with assms(3) show ?thesis by (simp add: update_conv')
  next
    case False
    with assms(4) have "rel_option (\<lambda>t w. holds (jsonValue t) h' w) (map_of ms k) (map_of fs k)"
      by simp
    with False show ?thesis
      by (simp add: update_conv' fmlookup_of_list map_of_jsonValue option.rel_map)
  qed
qed

lemma holds_assigned_array:
  assumes "nested < length h'"
    and "h' ! nested = ArrCell (if i < length vs then vs[i := v]
                                else vs @ replicate (i - length vs) RUndef @ [v])"
    and "holds c h' v" and "length vs = length ts"
    and "\<forall>j < length vs. j \<noteq> i \<longrightarrow> holds (jsonValue (ts ! j)) h' (vs ! j)"
  shows "holds (JArr (if i < length (map jsonValue ts) then (map jsonValue ts)[i := c]
                      else map jsonValue ts @ replicate (i - length (map jsonValue ts)) JUndef @ [c]))
           h' (Ref nested)"
proof (cases "i < length vs")
  case True
  have "list_all2 (\<lambda>c w. holds c h' w) ((map jsonValue ts)[i := c]) (vs[i := v])"
    unfolding list_all2_conv_all_nth
  proof (intro conjI allI impI)
    show "length ((map jsonValue ts)[i := c]) = length (vs[i := v])"
      using assms(4) by simp
    fix j assume "j < length ((map jsonValue ts)[i := c])"
    with assms(4) have j: "j < length vs" by simp
    show "holds ((map jsonValue ts)[i := c] ! j) h' (vs[i := v] ! j)"
    proof (cases "j = i")
      case True
      with j assms(3,4) show ?thesis by simp
    next
      case False
      with j assms(4,5) show ?thesis by simp
    qed
  qed
  with True assms(1,2,4) show ?thesis
    unfolding holds_JArr by simp
next
  case False
  have "list_all2 (\<lambda>c w. holds c h' w)
      (map jsonValue ts @ replicate (i - length ts) JUndef @ [c])
      (vs @ replicate (i - length vs) RUndef @ [v])"
  proof (intro list_all2_appendI)
    show "list_all2 (\<lambda>c w. holds c h' w) (map jsonValue ts) vs"
      unfolding list_all2_conv_all_nth using assms(4,5) False by auto
    show "list_all2 (\<lambda>c w. holds c h' w) (replicate (i - length ts) JUndef)
        (replicate (i - length vs) RUndef)"
      using assms(4) by (simp add: list_all2_conv_all_nth)
    show "list_all2 (\<lambda>c w. holds c h' w) [c] [v]"
      using assms(3) by simp
  qed
  with False assms(1,2,4) show ?thesis
    unfolding holds_JArr by simp
qed

lemma baseSetS_refines:
  assumes w: "holds nv h0 w"
  shows "parsed t h lo (Ref nested) \<Longrightarrow> unchanged h0 h \<Longrightarrow> length h0 \<le> lo \<Longrightarrow>
     baseSetS h nested ks w = (e, h') \<Longrightarrow>
     length h \<le> length h' \<and> (\<forall>x < length h. x < lo \<or> nested < x \<longrightarrow> h' ! x = h ! x) \<and>
     (case baseSet (jsonValue t) ks nv of
        Inl err \<Rightarrow> e = Some err
      | Inr c' \<Rightarrow> e = None \<and> holds c' h' (Ref nested))"
proof (induction ks arbitrary: t h lo nested e h')
  case Nil
  then show ?case by (auto dest: parsed_holds)
next
  case (Cons key rest)
  note p = Cons.prems(1) and u = Cons.prems(2) and l0 = Cons.prems(3) and b = Cons.prems(4)
  from parsed_Ref [OF p] have nl: "nested < length h" and sn: "Suc nested = lo + cells t"
    and ln: "lo \<le> nested"
    by auto
  from u have l0h: "length h0 \<le> length h" by (rule unchanged_length)
  define newCell where "newCell = (if isIndex (hd rest) then ArrCell [] else ObjCell [])"
  define tn where "tn = (if isIndex (hd rest) then TArr [] else TObj [])"
  have jn: "jsonValue tn = (if isIndex (hd rest) then JArr [] else JObj fmempty)"
    by (simp add: tn_def)
  have fresh: "parsed tn (hx[nested := c]) (length h) (Ref (length h))"
    if "hx = h @ [newCell]" for hx c
    using that nl by (auto simp: tn_def newCell_def nth_append)
  have ux: "unchanged h0 ((h @ [newCell])[nested := c])" for c
  proof -
    from u have "unchanged h0 (h @ [newCell])"
      by (blast intro: unchanged_trans unchanged_append)
    moreover from l0 ln have "length h0 \<le> nested" by simp
    ultimately show ?thesis by (rule unchanged_update)
  qed
  show ?case
  proof (cases "protoKey key")
    case True
    with b show ?thesis by auto
  next
    case np: False
    show ?thesis
    proof (cases t)
      case (TObj ms)
      with p obtain fs where c: "h ! nested = ObjCell fs" and pm: "parsedMembers ms h lo fs"
        and n: "nested = lo + cellsM ms"
        by (auto split: cell.splits)
      define m where "m = fmap_of_list (map (map_prod id jsonValue) ms)"
      have jt: "jsonValue t = JObj m" by (simp add: TObj m_def)
      have lk: "fmlookup m k = map_option jsonValue (map_of ms k)" for k
        by (simp add: m_def fmlookup_of_list map_of_jsonValue)
      show ?thesis
      proof (cases "rest = []")
        case True
        from b True np have "assignValueS h nested key w = (e, h')" by simp
        with assignValueS_Obj [OF nl c, of key w]
        have e: "e = None" and h': "h' = h[nested := ObjCell (AList.update key w fs)]"
          by simp_all
        from l0 n have "length h0 \<le> nested" by simp
        with u have u': "unchanged h0 h'" unfolding h' by (rule unchanged_update)
        from w u' have hw: "holds nv h' w" by (rule holds_frame)
        have pm': "parsedMembers ms h' lo fs"
          using pm by (rule parsedMembers_local) (auto simp: h' n)
        have "holds (JObj (fmupd key nv (fmap_of_list (map (map_prod id jsonValue) ms)))) h'
            (Ref nested)"
        proof (rule holds_assigned_object [where fs = fs and v = w])
          show "nested < length h'" using nl by (simp add: h')
          show "h' ! nested = ObjCell (AList.update key w fs)" using nl by (simp add: h')
          show "holds nv h' w" by fact
          show "\<forall>k. k \<noteq> key \<longrightarrow>
              rel_option (\<lambda>t w. holds (jsonValue t) h' w) (map_of ms k) (map_of fs k)"
            using parsedMembers_holds [OF pm'] by simp
        qed
        moreover have "baseSet (jsonValue t) (key # rest) nv = Inr (JObj (fmupd key nv m))"
          using True np jt by simp
        moreover have "\<forall>x < length h. x < lo \<or> nested < x \<longrightarrow> h' ! x = h ! x"
          using n by (auto simp: h')
        ultimately show ?thesis
          using e by (simp add: m_def h')
      next
        case nr: False
        show ?thesis
        proof (cases "isRef (getPropS h (Ref nested) key)")
          case True
          then obtain a where g: "getPropS h (Ref nested) key = Ref a"
            by (cases "getPropS h (Ref nested) key") auto
          with nl c have mf: "map_of fs key = Some (Ref a)"
            by (auto split: option.splits)
          from parsedMembers_member [OF pm mf] obtain tk bk where tk: "map_of ms key = Some tk"
            and pk: "parsed tk h bk (Ref a)" and lb: "lo \<le> bk"
            and ub: "bk + cells tk \<le> lo + cellsM ms"
            and sib: "\<forall>h'. length h \<le> length h' \<longrightarrow>
              (\<forall>x. lo \<le> x \<and> x < lo + cellsM ms \<and> \<not> (bk \<le> x \<and> x < bk + cells tk) \<longrightarrow> h' ! x = h ! x) \<longrightarrow>
              (\<forall>k'. k' \<noteq> key \<longrightarrow>
                 rel_option (\<lambda>t w. holds (jsonValue t) h' w) (map_of ms k') (map_of fs k'))"
            by blast
          from parsed_Ref [OF pk] have sa: "Suc a = bk + cells tk" by simp
          define h1 where "h1 = h[nested := ObjCell (AList.update key (Ref a) fs)]"
          from b np nr g assignValueS_Obj [OF nl c, of key "Ref a"]
          have r: "baseSetS h1 a rest w = (e, h')"
            by (simp add: h1_def)
          have pk1: "parsed tk h1 bk (Ref a)"
            using pk by (rule parsed_local) (use ub n in \<open>auto simp: h1_def\<close>)
          from l0 n have "length h0 \<le> nested" by simp
          with u have u1: "unchanged h0 h1" unfolding h1_def by (rule unchanged_update)
          from l0 lb have "length h0 \<le> bk" by simp
          from Cons.IH [OF pk1 u1 this r]
          have l': "length h1 \<le> length h'"
            and f': "\<forall>x<length h1. x < bk \<or> a < x \<longrightarrow> h' ! x = h1 ! x"
            and res: "case baseSet (jsonValue tk) rest nv of
                Inl err \<Rightarrow> e = Some err
              | Inr c' \<Rightarrow> e = None \<and> holds c' h' (Ref a)"
            by auto
          from tk have gv: "getProp (JObj m) key = jsonValue tk" by (simp add: lk)
          from parsed_holds [OF pk] have io: "isObject (jsonValue tk)"
            by (auto dest: holds_Ref)
          have bs: "baseSet (jsonValue t) (key # rest) nv =
              (case baseSet (jsonValue tk) rest nv of
                 Inl err \<Rightarrow> Inl err
               | Inr child \<Rightarrow> Inr (JObj (fmupd key child m)))"
            unfolding jt using np nr io
            by (simp add: gv Let_def del: getProp.simps split: sum.splits)
          have fr: "\<forall>x<length h. x < lo \<or> nested < x \<longrightarrow> h' ! x = h ! x"
          proof (intro allI impI)
            fix x assume x: "x < length h" "x < lo \<or> nested < x"
            with lb sa ub n have "x < bk \<or> a < x" and "x \<noteq> nested" by auto
            with f' x(1) show "h' ! x = h ! x" by (auto simp: h1_def)
          qed
          from l' have lh: "length h \<le> length h'" by (simp add: h1_def)
          show ?thesis
          proof (cases "baseSet (jsonValue tk) rest nv")
            case (Inl err)
            with res bs lh fr show ?thesis by simp
          next
            case (Inr child)
            with res have e: "e = None" and hc: "holds child h' (Ref a)" by simp_all
            from sa ub n have "a < nested" by simp
            with f' nl have nc: "h' ! nested = ObjCell (AList.update key (Ref a) fs)"
              by (simp add: h1_def)
            have "\<forall>x. lo \<le> x \<and> x < lo + cellsM ms \<and> \<not> (bk \<le> x \<and> x < bk + cells tk) \<longrightarrow>
                h' ! x = h ! x"
            proof (intro allI impI)
              fix x assume x: "lo \<le> x \<and> x < lo + cellsM ms \<and> \<not> (bk \<le> x \<and> x < bk + cells tk)"
              with sa n nl have "x < length h1" "x < bk \<or> a < x" "x \<noteq> nested"
                by (auto simp: h1_def)
              with f' show "h' ! x = h ! x" by (auto simp: h1_def)
            qed
            with sib lh have s: "\<forall>k'. k' \<noteq> key \<longrightarrow>
                rel_option (\<lambda>t w. holds (jsonValue t) h' w) (map_of ms k') (map_of fs k')"
              by blast
            from nl lh have "nested < length h'" by simp
            from holds_assigned_object [OF this nc hc s] bs Inr e lh fr show ?thesis
              by (simp add: m_def)
          qed
        next
          case False
          define h1 where "h1 = (h @ [newCell])[nested := ObjCell (AList.update key (Ref (length h)) fs)]"
          from nl c have "assignValueS (h @ [newCell]) nested key (Ref (length h)) = (None, h1)"
            by (simp add: assignValueS_def h1_def nth_append)
          with b np nr False have r: "baseSetS h1 (length h) rest w = (e, h')"
            by (simp add: baseSetS_step_new newCell_def del: baseSetS.simps)
          have pn: "parsed tn h1 (length h) (Ref (length h))"
            unfolding h1_def by (rule fresh) simp
          have u1: "unchanged h0 h1" unfolding h1_def by (rule ux)
          from Cons.IH [OF pn u1 l0h r]
          have l': "length h1 \<le> length h'"
            and f': "\<forall>x<length h1. x < length h \<or> length h < x \<longrightarrow> h' ! x = h1 ! x"
            and res: "case baseSet (jsonValue tn) rest nv of
                Inl err \<Rightarrow> e = Some err
              | Inr c' \<Rightarrow> e = None \<and> holds c' h' (Ref (length h))"
            by auto
          from p have "holds (jsonValue t) h (Ref nested)" by (rule parsed_holds)
          from getProp_holds [OF this, of key] False jt
          have io: "\<not> isObject (getProp (JObj m) key)"
            by (auto dest: holds_isObject)
          have bs: "baseSet (jsonValue t) (key # rest) nv =
              (case baseSet (jsonValue tn) rest nv of
                 Inl err \<Rightarrow> Inl err
               | Inr child \<Rightarrow> Inr (JObj (fmupd key child m)))"
            unfolding jt using np nr io
            by (simp add: jn Let_def del: getProp.simps split: sum.splits)
          have fx: "\<forall>x<length h. x \<noteq> nested \<longrightarrow> h' ! x = h ! x"
            using f' by (auto simp: h1_def nth_append)
          then have fr: "\<forall>x<length h. x < lo \<or> nested < x \<longrightarrow> h' ! x = h ! x"
            using n by auto
          from l' have lh: "length h \<le> length h'" by (simp add: h1_def)
          show ?thesis
          proof (cases "baseSet (jsonValue tn) rest nv")
            case (Inl err)
            with res bs lh fr show ?thesis by simp
          next
            case (Inr child)
            with res have e: "e = None" and hc: "holds child h' (Ref (length h))" by simp_all
            from f' nl have nc: "h' ! nested = ObjCell (AList.update key (Ref (length h)) fs)"
              by (simp add: h1_def)
            have "parsedMembers ms h' lo fs"
              using pm lh by (rule parsedMembers_local) (use fx nl n in auto)
            from parsedMembers_holds [OF this] have s: "\<forall>k'. k' \<noteq> key \<longrightarrow>
                rel_option (\<lambda>t w. holds (jsonValue t) h' w) (map_of ms k') (map_of fs k')"
              by simp
            from nl lh have "nested < length h'" by simp
            from holds_assigned_object [OF this nc hc s] bs Inr e lh fr show ?thesis
              by (simp add: m_def)
          qed
        qed
      qed
    next
      case (TArr ts)
      with p obtain vs where c: "h ! nested = ArrCell vs" and pe: "parsedElements ts h lo vs"
        and n: "nested = lo + cellsL ts"
        by (auto split: cell.splits)
      from pe have lv: "length vs = length ts" by (rule parsedElements_length)
      have jt: "jsonValue t = JArr (map jsonValue ts)" by (simp add: TArr)
      have sibs: "\<forall>j < length vs. holds (jsonValue (ts ! j)) hh (vs ! j)"
        if "length h \<le> length hh" and "\<forall>x < length h. x \<noteq> nested \<longrightarrow> hh ! x = h ! x" for hh
      proof -
        have "parsedElements ts hh lo vs"
          using pe that(1) by (rule parsedElements_local) (use that(2) nl n in auto)
        from parsedElements_holds [OF this] lv show ?thesis
          by (auto simp: list_all2_conv_all_nth)
      qed
      show ?thesis
      proof (cases "arrayIndex key")
        case None
        show ?thesis
        proof (cases "rest = []")
          case True
          from b True np have "assignValueS h nested key w = (e, h')" by simp
          with assignValueS_Arr_fail [OF nl c None, of w]
          have "e = Some OutsideModel" and "h' = h" by simp_all
          moreover have "baseSet (jsonValue t) (key # rest) nv = Inl OutsideModel"
            using True np None jt by simp
          ultimately show ?thesis by simp
        next
          case nr: False
          from nl c None have "\<not> isRef (getPropS h (Ref nested) key)" by simp
          with b np nr
          have "(case assignValueS (h @ [newCell]) nested key (Ref (length h)) of
                   (Some e, h') \<Rightarrow> (Some e, h')
                 | (None, h') \<Rightarrow> baseSetS h' (length h) rest w) = (e, h')"
            by (simp add: baseSetS_step_new newCell_def del: baseSetS.simps)
          moreover have "assignValueS (h @ [newCell]) nested key (Ref (length h)) =
              (Some OutsideModel, h @ [newCell])"
            using nl c None by (simp add: assignValueS_def nth_append)
          ultimately have "e = Some OutsideModel" and "h' = h @ [newCell]" by simp_all
          moreover have "baseSet (jsonValue t) (key # rest) nv = Inl OutsideModel"
            using nr np None jt by (simp add: Let_def)
          ultimately show ?thesis by (simp add: nth_append)
        qed
      next
        case (Some i)
        define vs' where "vs' v = (if i < length vs then vs[i := v]
          else vs @ replicate (i - length vs) RUndef @ [v])" for v
        define xs' where "xs' c0 = (if i < length (map jsonValue ts) then (map jsonValue ts)[i := c0]
          else map jsonValue ts @ replicate (i - length (map jsonValue ts)) JUndef @ [c0])" for c0
        have av: "assignValue (jsonValue t) key c0 = Inr (JArr (xs' c0))" for c0
          using Some jt by (simp add: xs'_def)
        have asg: "holds (JArr (xs' c0)) hh (Ref nested)"
          if "length h \<le> length hh" and "hh ! nested = ArrCell (vs' v)" and "holds c0 hh v"
            and "\<forall>j < length vs. j \<noteq> i \<longrightarrow> holds (jsonValue (ts ! j)) hh (vs ! j)" for c0 hh v
          unfolding xs'_def
          by (rule holds_assigned_array [where vs = vs and v = v])
            (use that nl lv in \<open>auto simp: vs'_def\<close>)
        show ?thesis
        proof (cases "rest = []")
          case True
          from b True np have "assignValueS h nested key w = (e, h')" by simp
          with assignValueS_Arr [OF nl c Some, of w]
          have e: "e = None" and h': "h' = h[nested := ArrCell (vs' w)]"
            by (simp_all add: vs'_def)
          from l0 ln have "length h0 \<le> nested" by simp
          with u have u': "unchanged h0 h'" unfolding h' by (rule unchanged_update)
          from w u' have hw: "holds nv h' w" by (rule holds_frame)
          have "holds (JArr (xs' nv)) h' (Ref nested)"
            by (rule asg [where v = w]) (use nl hw sibs [of h'] in \<open>auto simp: h'\<close>)
          moreover have "baseSet (jsonValue t) (key # rest) nv = Inr (JArr (xs' nv))"
            using True np av by simp
          moreover have "\<forall>x < length h. x < lo \<or> nested < x \<longrightarrow> h' ! x = h ! x"
            using n by (auto simp: h')
          ultimately show ?thesis
            using e by (simp add: h')
        next
          case nr: False
          show ?thesis
          proof (cases "isRef (getPropS h (Ref nested) key)")
            case True
            then obtain a where g: "getPropS h (Ref nested) key = Ref a"
              by (cases "getPropS h (Ref nested) key") auto
            with nl c Some have il: "i < length vs" and vi: "vs ! i = Ref a"
              by (auto split: if_splits)
            from parsedElements_element [OF pe il] vi obtain bk
              where pk: "parsed (ts ! i) h bk (Ref a)" and lb: "lo \<le> bk"
                and ub: "bk + cells (ts ! i) \<le> lo + cellsL ts"
                and sib: "\<forall>h'. length h \<le> length h' \<longrightarrow>
                  (\<forall>x. lo \<le> x \<and> x < lo + cellsL ts \<and> \<not> (bk \<le> x \<and> x < bk + cells (ts ! i)) \<longrightarrow>
                     h' ! x = h ! x) \<longrightarrow>
                  (\<forall>j < length vs. j \<noteq> i \<longrightarrow> holds (jsonValue (ts ! j)) h' (vs ! j))"
              by auto
            from parsed_Ref [OF pk] have sa: "Suc a = bk + cells (ts ! i)" by simp
            define h1 where "h1 = h[nested := ArrCell (vs' (Ref a))]"
            from b np nr g assignValueS_Arr [OF nl c Some, of "Ref a"]
            have r: "baseSetS h1 a rest w = (e, h')"
              by (simp add: h1_def vs'_def)
            have pk1: "parsed (ts ! i) h1 bk (Ref a)"
              using pk by (rule parsed_local) (use ub n in \<open>auto simp: h1_def\<close>)
            from l0 ln have "length h0 \<le> nested" by simp
            with u have u1: "unchanged h0 h1" unfolding h1_def by (rule unchanged_update)
            from l0 lb have "length h0 \<le> bk" by simp
            from Cons.IH [OF pk1 u1 this r]
            have l': "length h1 \<le> length h'"
              and f': "\<forall>x<length h1. x < bk \<or> a < x \<longrightarrow> h' ! x = h1 ! x"
              and res: "case baseSet (jsonValue (ts ! i)) rest nv of
                  Inl err \<Rightarrow> e = Some err
                | Inr c' \<Rightarrow> e = None \<and> holds c' h' (Ref a)"
              by auto
            from il lv Some have gv: "getProp (JArr (map jsonValue ts)) key = jsonValue (ts ! i)"
              by simp
            from parsed_holds [OF pk] have io: "isObject (jsonValue (ts ! i))"
              by (auto dest: holds_Ref)
            have bs: "baseSet (jsonValue t) (key # rest) nv =
                (case baseSet (jsonValue (ts ! i)) rest nv of
                   Inl err \<Rightarrow> Inl err
                 | Inr child \<Rightarrow> Inr (JArr (xs' child)))"
              using np nr io av unfolding jt
              by (simp add: gv Let_def del: getProp.simps assignValue.simps split: sum.splits)
            have fr: "\<forall>x<length h. x < lo \<or> nested < x \<longrightarrow> h' ! x = h ! x"
            proof (intro allI impI)
              fix x assume x: "x < length h" "x < lo \<or> nested < x"
              with lb sa ub n have "x < bk \<or> a < x" and "x \<noteq> nested" by auto
              with f' x(1) show "h' ! x = h ! x" by (auto simp: h1_def)
            qed
            from l' have lh: "length h \<le> length h'" by (simp add: h1_def)
            show ?thesis
            proof (cases "baseSet (jsonValue (ts ! i)) rest nv")
              case (Inl err)
              with res bs lh fr show ?thesis by simp
            next
              case (Inr child)
              with res have e: "e = None" and hc: "holds child h' (Ref a)" by simp_all
              from sa ub n have "a < nested" by simp
              with f' nl have nc: "h' ! nested = ArrCell (vs' (Ref a))"
                by (simp add: h1_def)
              have "\<forall>x. lo \<le> x \<and> x < lo + cellsL ts \<and> \<not> (bk \<le> x \<and> x < bk + cells (ts ! i)) \<longrightarrow>
                  h' ! x = h ! x"
              proof (intro allI impI)
                fix x assume x: "lo \<le> x \<and> x < lo + cellsL ts \<and> \<not> (bk \<le> x \<and> x < bk + cells (ts ! i))"
                with sa n nl have "x < length h1" "x < bk \<or> a < x" "x \<noteq> nested"
                  by (auto simp: h1_def)
                with f' show "h' ! x = h ! x" by (auto simp: h1_def)
              qed
              with sib lh have s: "\<forall>j < length vs. j \<noteq> i \<longrightarrow> holds (jsonValue (ts ! j)) h' (vs ! j)"
                by blast
              from asg [OF lh nc hc s] bs Inr e lh fr show ?thesis
                by simp
            qed
          next
            case False
            define h1 where "h1 = (h @ [newCell])[nested := ArrCell (vs' (Ref (length h)))]"
            from nl c Some have "assignValueS (h @ [newCell]) nested key (Ref (length h)) = (None, h1)"
              by (simp add: assignValueS_def h1_def nth_append vs'_def)
            with b np nr False have r: "baseSetS h1 (length h) rest w = (e, h')"
              by (simp add: baseSetS_step_new newCell_def del: baseSetS.simps)
            have pn: "parsed tn h1 (length h) (Ref (length h))"
              unfolding h1_def by (rule fresh) simp
            have u1: "unchanged h0 h1" unfolding h1_def by (rule ux)
            from Cons.IH [OF pn u1 l0h r]
            have l': "length h1 \<le> length h'"
              and f': "\<forall>x<length h1. x < length h \<or> length h < x \<longrightarrow> h' ! x = h1 ! x"
              and res: "case baseSet (jsonValue tn) rest nv of
                  Inl err \<Rightarrow> e = Some err
                | Inr c' \<Rightarrow> e = None \<and> holds c' h' (Ref (length h))"
              by auto
            from p have "holds (jsonValue t) h (Ref nested)" by (rule parsed_holds)
            then have "holds (getProp (jsonValue t) key) h (getPropS h (Ref nested) key)"
              by (rule getProp_holds)
            from holds_isObject [OF this] False
            have "\<not> isObject (getProp (jsonValue t) key)"
              by (simp del: getProp.simps getPropS.simps)
            then have io: "\<not> isObject (getProp (JArr (map jsonValue ts)) key)"
              unfolding jt .
            have bs: "baseSet (jsonValue t) (key # rest) nv =
                (case baseSet (jsonValue tn) rest nv of
                   Inl err \<Rightarrow> Inl err
                 | Inr child \<Rightarrow> Inr (JArr (xs' child)))"
              using np nr io av unfolding jt
              by (simp add: jn Let_def del: getProp.simps assignValue.simps split: sum.splits)
            have fx: "\<forall>x<length h. x \<noteq> nested \<longrightarrow> h' ! x = h ! x"
              using f' by (auto simp: h1_def nth_append)
            then have fr: "\<forall>x<length h. x < lo \<or> nested < x \<longrightarrow> h' ! x = h ! x"
              using n by auto
            from l' have lh: "length h \<le> length h'" by (simp add: h1_def)
            show ?thesis
            proof (cases "baseSet (jsonValue tn) rest nv")
              case (Inl err)
              with res bs lh fr show ?thesis by simp
            next
              case (Inr child)
              with res have e: "e = None" and hc: "holds child h' (Ref (length h))" by simp_all
              from f' nl have nc: "h' ! nested = ArrCell (vs' (Ref (length h)))"
                by (simp add: h1_def)
              from sibs [OF lh fx] have s: "\<forall>j < length vs. j \<noteq> i \<longrightarrow>
                  holds (jsonValue (ts ! j)) h' (vs ! j)"
                by simp
              from asg [OF lh nc hc s] bs Inr e lh fr show ?thesis
                by simp
            qed
          qed
        qed
      qed
    qed (use p in simp_all)
  qed
qed

lemma hasKey_holds:
  assumes "holds c h v"
  shows "hasKeyS h v k = hasKey c k"
proof (cases c)
  case (JObj m)
  with assms have "holds (JObj m) h v" by simp
  then obtain a fs where v: "v = Ref a" and a: "a < length h" and c: "h ! a = ObjCell fs"
    and l: "\<forall>k. rel_option (\<lambda>c w. holds c h w) (fmlookup m k) (map_of fs k)"
    unfolding holds_JObj by blast
  from l have "rel_option (\<lambda>c w. holds c h w) (fmlookup m k) (map_of fs k)" by simp
  then have "(fmlookup m k = None) = (map_of fs k = None)"
    by (cases "fmlookup m k"; cases "map_of fs k") auto
  then have "(k |\<in>| fmdom m) = (k \<in> fst ` set fs)"
    by (cases "fmlookup m k") (auto simp: map_of_eq_None_iff fmlookup_dom_iff)
  with JObj v a c show ?thesis by simp
next
  case (JArr cs)
  with assms have "holds (JArr cs) h v" by simp
  then show ?thesis
    using JArr unfolding holds_JArr by auto
qed (use assms in auto)

lemma castPath_holds: "holds c h v \<Longrightarrow> castPathS p h v = castPath p c"
  by (simp add: castPathS_def castPath_def isKey_def hasKey_holds)

lemma lodash_setS_refines:
  assumes p: "parsed t h lo r" and w: "holds nv h0 w" and u: "unchanged h0 h"
    and l: "length h0 \<le> lo" and s: "lodash_setS h r path w = (e, h')"
  shows "unchanged h0 h' \<and>
     (case lodash_set (jsonValue t) path nv of
        Inl err \<Rightarrow> e = Some err
      | Inr c' \<Rightarrow> e = None \<and> holds c' h' r)"
proof (cases "isRef r")
  case False
  from p have hr: "holds (jsonValue t) h r" by (rule parsed_holds)
  from holds_isObject [OF this] False have "\<not> isObject (jsonValue t)" by simp
  moreover from False s have "e = None" and "h' = h" by (cases r; simp)+
  ultimately show ?thesis
    using hr u by (simp add: lodash_set_def)
next
  case True
  then obtain a where r: "r = Ref a" by (cases r) auto
  from p have hr: "holds (jsonValue t) h r" by (rule parsed_holds)
  from holds_isObject [OF this] True have io: "isObject (jsonValue t)" by simp
  from s r have b: "baseSetS h a (castPath path (jsonValue t)) w = (e, h')"
    by (simp add: castPath_holds [OF hr, unfolded r])
  from baseSetS_refines [OF w p [unfolded r] u l b]
  have lh: "length h \<le> length h'" and f: "\<forall>x<length h. x < lo \<or> a < x \<longrightarrow> h' ! x = h ! x"
    and res: "case baseSet (jsonValue t) (castPath path (jsonValue t)) nv of
        Inl err \<Rightarrow> e = Some err
      | Inr c' \<Rightarrow> e = None \<and> holds c' h' (Ref a)"
    by auto
  have "unchanged h0 h'"
  proof (rule unchangedI)
    from u lh show "length h0 \<le> length h'" by (auto dest: unchanged_length)
    show "\<forall>x<length h0. h' ! x = h0 ! x"
    proof (intro allI impI)
      fix x assume x: "x < length h0"
      with u have "x < length h" by (auto dest: unchanged_length)
      with f x l have "h' ! x = h ! x" by simp
      with u x show "h' ! x = h0 ! x" by (simp add: unchanged_nth)
    qed
  qed
  with res io r show ?thesis
    by (auto simp: lodash_set_def split: sum.splits)
qed

lemma deepCloneS_parsed:
  assumes "stringify (Suc (length h)) h v = Inr (Some t)"
  shows "\<exists>r h1. deepCloneS h v = (Inr r, h1) \<and> unchanged h h1 \<and> parsed t h1 (length h) r"
proof -
  obtain r h1 where p: "parse t h = (r, h1)" by (cases "parse t h")
  from parse_parsed [OF p] assms p show ?thesis
    by (simp add: deepCloneS_def)
qed

lemma write_refines:
  assumes st: "stringify (Suc (length h)) h cur = Inr (Some t)" and w: "holds nv h w"
    and c: "deepCloneS h cur = (o1, h1)" and s: "lodash_setS h1 r path w = (e, h2)"
    and o1: "o1 = Inr r"
  shows "unchanged h h2 \<and>
     (case lodash_set (jsonValue t) path nv of
        Inl err \<Rightarrow> e = Some err
      | Inr c' \<Rightarrow> e = None \<and> holds c' h2 r)"
proof -
  from deepCloneS_parsed [OF st] c o1 have u: "unchanged h h1" and p: "parsed t h1 (length h) r"
    by auto
  from lodash_setS_refines [OF p w u le_refl s] show ?thesis .
qed

lemma setSettingS_refines:
  assumes st: "stringify (Suc (length h)) h cur = Inr (Some t)" and w: "holds nv h w"
  shows "case lodash_set (jsonValue t) (contextualPath propertyPath blockName) nv of
        Inl err \<Rightarrow> fst (setSettingS propertyPath blockName w h cur) = Inl err
      | Inr c' \<Rightarrow> \<exists>r. fst (setSettingS propertyPath blockName w h cur) = Inr r \<and>
          holds c' (snd (setSettingS propertyPath blockName w h cur)) r"
proof -
  from deepCloneS_parsed [OF st] obtain r h1 where c: "deepCloneS h cur = (Inr r, h1)"
    by blast
  obtain e h2 where s: "lodash_setS h1 r (contextualPath propertyPath blockName) w = (e, h2)"
    by (cases "lodash_setS h1 r (contextualPath propertyPath blockName) w")
  from write_refines [OF st w c s refl]
  have res: "case lodash_set (jsonValue t) (contextualPath propertyPath blockName) nv of
        Inl err \<Rightarrow> e = Some err
      | Inr c' \<Rightarrow> e = None \<and> holds c' h2 r"
    by simp
  show ?thesis
  proof (cases "lodash_set (jsonValue t) (contextualPath propertyPath blockName) nv")
    case (Inl err)
    with res c s show ?thesis by (simp add: setSettingS_def)
  next
    case (Inr c')
    with res c s show ?thesis by (simp add: setSettingS_def)
  qed
qed

lemma setStyleS_refines:
  assumes st: "stringify (Suc (length h)) h cur = Inr (Some t)"
    and w: "holds nv h
      (if d then pv (snd (deepCloneS h cur))
                 (getPropS (snd (deepCloneS h cur)) mergedConfig ''settings'') blockName path newValue
       else newValue)"
    and nm: "\<not> (d \<and> (mergedConfig = RUndef \<or> mergedConfig = RNull))"
  shows "case lodash_set (jsonValue t) (finalPath path blockName) nv of
        Inl err \<Rightarrow> fst (setStyleS pv mergedConfig path blockName d newValue h cur) = Inl err
      | Inr c' \<Rightarrow> \<exists>r. fst (setStyleS pv mergedConfig path blockName d newValue h cur) = Inr r \<and>
          holds c' (snd (setStyleS pv mergedConfig path blockName d newValue h cur)) r"
proof -
  from deepCloneS_parsed [OF st] obtain r h1 where c: "deepCloneS h cur = (Inr r, h1)"
    by blast
  define v where "v = (if d then pv h1 (getPropS h1 mergedConfig ''settings'') blockName path newValue
    else newValue)"
  from c have sh: "snd (deepCloneS h cur) = h1" by simp
  from w have w': "holds nv h v" unfolding v_def sh .
  obtain e h2 where s: "lodash_setS h1 r (finalPath path blockName) v = (e, h2)"
    by (cases "lodash_setS h1 r (finalPath path blockName) v")
  from write_refines [OF st w' c s refl]
  have res: "case lodash_set (jsonValue t) (finalPath path blockName) nv of
        Inl err \<Rightarrow> e = Some err
      | Inr c' \<Rightarrow> e = None \<and> holds c' h2 r"
    by simp
  from c s nm have f: "setStyleS pv mergedConfig path blockName d newValue h cur =
      (case e of Some err \<Rightarrow> (Inl err, h2) | None \<Rightarrow> (Inr r, h2))"
    by (auto simp: setStyleS_def v_def split: option.splits)
  show ?thesis
  proof (cases "lodash_set (jsonValue t) (finalPath path blockName) nv")
    case (Inl err)
    with res f show ?thesis by simp
  next
    case (Inr c')
    with res f show ?thesis by simp
  qed
qed

lemma holds_primitive:
  "holds c h RUndef = (c = JUndef)"
  "holds c h RNull = (c = JNull)"
  "holds c h (RBool b) = (c = JBool b)"
  "holds c h (RNum i) = (c = JNum i)"
  "holds c h (RStr s) = (c = JStr s)"
  by (cases c; auto simp: holds_JArr holds_JObj)+

lemma holds_unique: "holds c h v \<Longrightarrow> holds c' h v \<Longrightarrow> c = c'"
proof (induction c arbitrary: c' v)
  case (JArr cs)
  from JArr.prems(1) obtain a vs where v: "v = Ref a" and c: "h ! a = ArrCell vs"
    and l: "list_all2 (\<lambda>c w. holds c h w) cs vs"
    unfolding holds_JArr by blast
  from JArr.prems(2) v c obtain cs' where c': "c' = JArr cs'"
    and l': "list_all2 (\<lambda>c w. holds c h w) cs' vs"
    by (cases c') (auto simp: holds_JArr holds_JObj)
  have "cs = cs'"
  proof (rule nth_equalityI)
    from list_all2_lengthD [OF l] list_all2_lengthD [OF l'] show "length cs = length cs'"
      by simp
    fix j assume j: "j < length cs"
    with l l' have "holds (cs ! j) h (vs ! j)" and "holds (cs' ! j) h (vs ! j)"
      by (auto simp: list_all2_conv_all_nth)
    moreover from j have "cs ! j \<in> set cs" by simp
    ultimately show "cs ! j = cs' ! j" by (rule JArr.IH [rotated])
  qed
  with c' show ?case by simp
next
  case (JObj m)
  from JObj.prems(1) obtain a fs where v: "v = Ref a" and c: "h ! a = ObjCell fs"
    and l: "\<forall>k. rel_option (\<lambda>c w. holds c h w) (fmlookup m k) (map_of fs k)"
    unfolding holds_JObj by blast
  from JObj.prems(2) v c obtain m' where c': "c' = JObj m'"
    and l': "\<forall>k. rel_option (\<lambda>c w. holds c h w) (fmlookup m' k) (map_of fs k)"
    by (cases c') (auto simp: holds_JArr holds_JObj)
  have "m = m'"
  proof (rule fmap_ext)
    fix k
    from l have r: "rel_option (\<lambda>c w. holds c h w) (fmlookup m k) (map_of fs k)" by simp
    from l' have r': "rel_option (\<lambda>c w. holds c h w) (fmlookup m' k) (map_of fs k)" by simp
    show "fmlookup m k = fmlookup m' k"
    proof (cases "fmlookup m k")
      case None
      with r r' show ?thesis
        by (cases "map_of fs k"; cases "fmlookup m' k") auto
    next
      case (Some x)
      with r obtain w where w: "map_of fs k = Some w" and hx: "holds x h w"
        by (cases "map_of fs k") auto
      with r' obtain x' where x': "fmlookup m' k = Some x'" and hx': "holds x' h w"
        by (cases "fmlookup m' k") auto
      from Some have "x \<in> fmran' m" by (rule fmran'I)
      from JObj.IH [OF this hx hx'] Some x' show ?thesis by simp
    qed
  qed
  with c' show ?case by simp
qed (simp_all add: holds_primitive)

lemma size_element: "x \<in> set cs \<Longrightarrow> size x < size (JArr cs)"
  by (induction cs) auto

lemma size_member:
  assumes "fmlookup m k = Some x"
  shows "size x < size (JObj m)"
proof -
  from assms have "(k, x) \<in> fset (fset_of_fmap m)"
    by (simp add: fset_of_fmap_iff)
  then have "(\<lambda>(a, b). Suc (size b)) (k, x) \<le> (\<Sum>p \<in> fset (fset_of_fmap m). (\<lambda>(a, b). Suc (size b)) p)"
    by (intro member_le_sum) auto
  then show ?thesis
    by (simp add: size_fset_simps case_prod_beta)
qed

lemma elements_succeeds:
  "\<forall>v \<in> set vs. \<exists>x. f v = Inr x \<Longrightarrow> \<exists>ts. elements f vs = Inr ts"
  by (induction vs) auto

lemma members_succeeds:
  "\<forall>v \<in> snd ` set fs. \<exists>x. f v = Inr x \<Longrightarrow> \<exists>ms. members f fs = Inr ms"
  by (induction fs) auto

lemma distinctKeys_nth:
  "distinctKeys h \<Longrightarrow> a < length h \<Longrightarrow> h ! a = ObjCell fs \<Longrightarrow> distinct (map fst fs)"
  by (auto simp: distinctKeys_def list_all_length split: cell.splits)

lemma stringify_succeeds:
  assumes d: "distinctKeys h"
  shows "holds c h v \<Longrightarrow> distinct anc \<Longrightarrow>
     \<forall>x \<in> set anc. x < length h \<and> (\<exists>c0. holds c0 h (Ref x) \<and> size c < size c0) \<Longrightarrow>
     \<exists>x. stringify (Suc (length h) - length anc) h v = Inr x"
proof (induction c arbitrary: v anc)
  case (JArr cs)
  from JArr.prems(1) obtain a vs where v: "v = Ref a" and a: "a < length h"
    and c: "h ! a = ArrCell vs" and l: "list_all2 (\<lambda>c w. holds c h w) cs vs"
    unfolding holds_JArr by blast
  have na: "a \<notin> set anc"
  proof
    assume "a \<in> set anc"
    with JArr.prems(3) obtain c0 where "holds c0 h (Ref a)" and s: "size (JArr cs) < size c0"
      by blast
    with JArr.prems(1) v have "c0 = JArr cs" by (auto dest: holds_unique)
    with s show False by simp
  qed
  with JArr.prems(2) have da: "distinct (a # anc)" by simp
  from JArr.prems(3) a have "set (a # anc) \<subseteq> {..<length h}" by auto
  then have "card (set (a # anc)) \<le> card {..<length h}"
    by (intro card_mono) auto
  with da have la: "length (a # anc) \<le> length h"
    by (simp add: distinct_card del: set_simps)
  then have n: "Suc (length h) - length anc = Suc (Suc (length h) - length (a # anc))"
    by simp
  have "\<forall>w \<in> set vs. \<exists>x. stringify (Suc (length h) - length (a # anc)) h w = Inr x"
  proof
    fix w assume "w \<in> set vs"
    then obtain j where j: "j < length vs" and w: "w = vs ! j"
      by (auto simp: in_set_conv_nth)
    with l have hj: "holds (cs ! j) h w" and jc: "j < length cs"
      by (auto simp: list_all2_conv_all_nth)
    from jc have m: "cs ! j \<in> set cs" by simp
    have "\<forall>x \<in> set (a # anc). x < length h \<and> (\<exists>c0. holds c0 h (Ref x) \<and> size (cs ! j) < size c0)"
    proof
      fix x assume "x \<in> set (a # anc)"
      then consider "x = a" | "x \<in> set anc" by auto
      then show "x < length h \<and> (\<exists>c0. holds c0 h (Ref x) \<and> size (cs ! j) < size c0)"
      proof cases
        case 1
        with a JArr.prems(1) v size_element [OF m] show ?thesis by blast
      next
        case 2
        with JArr.prems(3) obtain c0 where "x < length h" and "holds c0 h (Ref x)"
          and "size (JArr cs) < size c0"
          by blast
        with size_element [OF m] show ?thesis
          by (intro conjI exI [of _ c0]) simp_all
      qed
    qed
    from JArr.IH [OF m hj da this]
    show "\<exists>x. stringify (Suc (length h) - length (a # anc)) h w = Inr x" .
  qed
  then have "\<exists>ts. elements (stringify (Suc (length h) - length (a # anc)) h) vs = Inr ts"
    by (rule elements_succeeds)
  then obtain ts where "elements (stringify (Suc (length h) - length (a # anc)) h) vs = Inr ts"
    by blast
  with v a c show ?case
    unfolding n by simp
next
  case (JObj m)
  from JObj.prems(1) obtain a fs where v: "v = Ref a" and a: "a < length h"
    and c: "h ! a = ObjCell fs"
    and l: "\<forall>k. rel_option (\<lambda>c w. holds c h w) (fmlookup m k) (map_of fs k)"
    unfolding holds_JObj by blast
  from d a c have df: "distinct (map fst fs)" by (rule distinctKeys_nth)
  have na: "a \<notin> set anc"
  proof
    assume "a \<in> set anc"
    with JObj.prems(3) obtain c0 where "holds c0 h (Ref a)" and s: "size (JObj m) < size c0"
      by blast
    with JObj.prems(1) v have "c0 = JObj m" by (auto dest: holds_unique)
    with s show False by simp
  qed
  with JObj.prems(2) have da: "distinct (a # anc)" by simp
  from JObj.prems(3) a have "set (a # anc) \<subseteq> {..<length h}" by auto
  then have "card (set (a # anc)) \<le> card {..<length h}"
    by (intro card_mono) auto
  with da have la: "length (a # anc) \<le> length h"
    by (simp add: distinct_card del: set_simps)
  then have n: "Suc (length h) - length anc = Suc (Suc (length h) - length (a # anc))"
    by simp
  have "\<forall>w \<in> snd ` set fs. \<exists>x. stringify (Suc (length h) - length (a # anc)) h w = Inr x"
  proof
    fix w assume "w \<in> snd ` set fs"
    then obtain k where "(k, w) \<in> set fs" by auto
    with df have mk: "map_of fs k = Some w" by simp
    from l have "rel_option (\<lambda>c w. holds c h w) (fmlookup m k) (map_of fs k)" by simp
    with mk obtain ck where ck: "fmlookup m k = Some ck" and hk: "holds ck h w"
      by (cases "fmlookup m k") auto
    from ck have r: "ck \<in> fmran' m" by (rule fmran'I)
    have "\<forall>x \<in> set (a # anc). x < length h \<and> (\<exists>c0. holds c0 h (Ref x) \<and> size ck < size c0)"
    proof
      fix x assume "x \<in> set (a # anc)"
      then consider "x = a" | "x \<in> set anc" by auto
      then show "x < length h \<and> (\<exists>c0. holds c0 h (Ref x) \<and> size ck < size c0)"
      proof cases
        case 1
        with a JObj.prems(1) v size_member [OF ck] show ?thesis by blast
      next
        case 2
        with JObj.prems(3) obtain c0 where "x < length h" and "holds c0 h (Ref x)"
          and "size (JObj m) < size c0"
          by blast
        with size_member [OF ck] show ?thesis
          by (intro conjI exI [of _ c0]) simp_all
      qed
    qed
    from JObj.IH [OF r hk da this]
    show "\<exists>x. stringify (Suc (length h) - length (a # anc)) h w = Inr x" .
  qed
  then have "\<exists>ms. members (stringify (Suc (length h) - length (a # anc)) h) fs = Inr ms"
    by (rule members_succeeds)
  then obtain ms where "members (stringify (Suc (length h) - length (a # anc)) h) fs = Inr ms"
    by blast
  with v a c show ?case
    unfolding n by simp
qed simp_all

lemma jsonCopy_undefined: "(jsonCopy c = JUndef) = (c = JUndef)"
  by (cases c) auto

lemma elements_nth:
  "elements f vs = Inr ts \<Longrightarrow>
     length ts = length vs \<and>
     (\<forall>j < length vs. \<exists>y. f (vs ! j) = Inr y \<and> ts ! j = (case y of None \<Rightarrow> TNull | Some t \<Rightarrow> t))"
proof (induction vs arbitrary: ts)
  case Nil
  then show ?case by simp
next
  case (Cons v vs)
  from Cons.prems obtain y ts' where y: "f v = Inr y" and e: "elements f vs = Inr ts'"
    and ts: "ts = (case y of None \<Rightarrow> TNull | Some t \<Rightarrow> t) # ts'"
    by (auto split: sum.splits)
  from Cons.IH [OF e] y ts show ?case
    by (auto simp: nth_Cons split: nat.splits)
qed

lemma members_lookup:
  "members f fs = Inr ms \<Longrightarrow> distinct (map fst fs) \<Longrightarrow>
     (case map_of fs k of None \<Rightarrow> map_of ms k = None | Some v \<Rightarrow> f v = Inr (map_of ms k))"
proof (induction fs arbitrary: ms k)
  case Nil
  then show ?case by simp
next
  case (Cons p fs)
  obtain k1 v1 where p: "p = (k1, v1)" by (cases p)
  from Cons.prems(1) p obtain y ms' where y: "f v1 = Inr y" and e: "members f fs = Inr ms'"
    and ms: "ms = (case y of None \<Rightarrow> ms' | Some t \<Rightarrow> (k1, t) # ms')"
    by (auto split: sum.splits)
  from Cons.prems(2) p have df: "distinct (map fst fs)" and nk: "k1 \<notin> fst ` set fs" by auto
  note ih = Cons.IH [OF e df]
  show ?case
  proof (cases "k = k1")
    case True
    from nk have "map_of fs k1 = None" by (simp add: map_of_eq_None_iff)
    with ih [of k1] have "map_of ms' k1 = None" by simp
    with True p y ms show ?thesis by (cases y) auto
  next
    case False
    with ms have "map_of ms k = map_of ms' k" by (cases y) auto
    with False p ih [of k] show ?thesis by (auto split: option.splits)
  qed
qed

lemma stringify_value:
  assumes d: "distinctKeys h"
  shows "holds c h v \<Longrightarrow> stringify n h v = Inr x \<Longrightarrow>
     (case x of None \<Rightarrow> c = JUndef | Some t \<Rightarrow> c \<noteq> JUndef \<and> jsonValue t = jsonCopy c)"
proof (induction c arbitrary: n v x)
  case (JArr cs)
  from JArr.prems(1) obtain a vs where v: "v = Ref a" and a: "a < length h"
    and c: "h ! a = ArrCell vs" and l: "list_all2 (\<lambda>c w. holds c h w) cs vs"
    unfolding holds_JArr by blast
  from JArr.prems(2) v a c obtain n' ts where n: "n = Suc n'"
    and e: "elements (stringify n' h) vs = Inr ts" and x: "x = Some (TArr ts)"
    by (cases n) (auto split: sum.splits)
  from elements_nth [OF e] have lt: "length ts = length vs"
    and el: "\<forall>j < length vs. \<exists>y. stringify n' h (vs ! j) = Inr y \<and>
        ts ! j = (case y of None \<Rightarrow> TNull | Some t \<Rightarrow> t)"
    by auto
  from l have lc: "length cs = length vs" by (rule list_all2_lengthD)
  have "map jsonValue ts = map (\<lambda>v. if v = JUndef then JNull else v) (map jsonCopy cs)"
  proof (rule nth_equalityI)
    show "length (map jsonValue ts) = length (map (\<lambda>v. if v = JUndef then JNull else v) (map jsonCopy cs))"
      using lt lc by simp
    fix j assume "j < length (map jsonValue ts)"
    with lt have j: "j < length vs" by simp
    with el obtain y where y: "stringify n' h (vs ! j) = Inr y"
      and tj: "ts ! j = (case y of None \<Rightarrow> TNull | Some t \<Rightarrow> t)"
      by blast
    from l j have hj: "holds (cs ! j) h (vs ! j)"
      by (simp add: list_all2_conv_all_nth)
    from j lc have m: "cs ! j \<in> set cs" by simp
    from JArr.IH [OF m hj y] tj
    have "jsonValue (ts ! j) = (if cs ! j = JUndef then JNull else jsonCopy (cs ! j))"
      by (cases y) auto
    with j lt lc show "map jsonValue ts ! j =
        map (\<lambda>v. if v = JUndef then JNull else v) (map jsonCopy cs) ! j"
      by (simp add: jsonCopy_undefined)
  qed
  with x show ?case by simp
next
  case (JObj m)
  from JObj.prems(1) obtain a fs where v: "v = Ref a" and a: "a < length h"
    and c: "h ! a = ObjCell fs"
    and l: "\<forall>k. rel_option (\<lambda>c w. holds c h w) (fmlookup m k) (map_of fs k)"
    unfolding holds_JObj by blast
  from d a c have df: "distinct (map fst fs)" by (rule distinctKeys_nth)
  from JObj.prems(2) v a c obtain n' ms where n: "n = Suc n'"
    and e: "members (stringify n' h) fs = Inr ms" and x: "x = Some (TObj ms)"
    by (cases n) (auto split: sum.splits)
  have "fmap_of_list (map (map_prod id jsonValue) ms) =
      fmfilter (\<lambda>k. fmlookup m k \<noteq> Some JUndef) (fmmap jsonCopy m)"
  proof (rule fmap_ext)
    fix k
    from l have r: "rel_option (\<lambda>c w. holds c h w) (fmlookup m k) (map_of fs k)" by simp
    note ml = members_lookup [OF e df, of k]
    show "fmlookup (fmap_of_list (map (map_prod id jsonValue) ms)) k =
        fmlookup (fmfilter (\<lambda>k. fmlookup m k \<noteq> Some JUndef) (fmmap jsonCopy m)) k"
    proof (cases "fmlookup m k")
      case None
      with r have "map_of fs k = None" by (cases "map_of fs k") auto
      with ml have "map_of ms k = None" by simp
      with None show ?thesis
        by (simp add: fmlookup_of_list map_of_jsonValue)
    next
      case (Some ck)
      with r obtain w where w: "map_of fs k = Some w" and hk: "holds ck h w"
        by (cases "map_of fs k") auto
      with ml have s: "stringify n' h w = Inr (map_of ms k)" by simp
      from Some have "ck \<in> fmran' m" by (rule fmran'I)
      from JObj.IH [OF this hk s] Some show ?thesis
        by (cases "map_of ms k") (auto simp: fmlookup_of_list map_of_jsonValue)
    qed
  qed
  with x show ?case by simp
qed (auto simp: holds_primitive)

lemma deepCloneS_refines:
  assumes d: "distinctKeys h" and hc: "holds c h cur"
  shows "case deepClone c of
      Inl e \<Rightarrow> deepCloneS h cur = (Inl e, h)
    | Inr c' \<Rightarrow> \<exists>t. stringify (Suc (length h)) h cur = Inr (Some t) \<and> jsonValue t = c'"
proof -
  from stringify_succeeds [OF d hc, of "[]"] obtain x
    where s: "stringify (Suc (length h)) h cur = Inr x"
    by auto
  from stringify_value [OF d hc s] s show ?thesis
    by (cases x) (auto simp: deepClone_def deepCloneS_def)
qed

lemma setSettingS_setSetting:
  assumes d: "distinctKeys h" and hc: "holds (user ctx) h cur" and w: "holds nv h newValue"
  shows "case setSetting propertyPath blockName nv ctx of
      Inl e \<Rightarrow> fst (setSettingS propertyPath blockName newValue h cur) = Inl e
    | Inr ctx' \<Rightarrow>
        \<exists>r. fst (setSettingS propertyPath blockName newValue h cur) = Inr r \<and>
          holds (user ctx') (snd (setSettingS propertyPath blockName newValue h cur)) r"
proof (cases "deepClone (user ctx)")
  case (Inl e)
  with deepCloneS_refines [OF d hc] show ?thesis
    by (simp add: setSetting_def setUserConfig_def setSettingS_def)
next
  case (Inr c')
  with deepCloneS_refines [OF d hc] obtain t
    where s: "stringify (Suc (length h)) h cur = Inr (Some t)" and t: "jsonValue t = c'"
    by auto
  from setSettingS_refines [OF s w, of propertyPath blockName] Inr t show ?thesis
    by (cases "lodash_set c' (contextualPath propertyPath blockName) nv")
      (simp_all add: setSetting_def setUserConfig_def)
qed

lemma setStyleS_setStyle:
  assumes d: "distinctKeys h" and hc: "holds (user ctx) h cur"
    and hm: "holds (merged ctx) h mergedConfig"
    and w: "holds (if sde then pv (getProp (merged ctx) ''settings'') blockName path nv else nv) h
      (if sde then pvS (snd (deepCloneS h cur))
                  (getPropS (snd (deepCloneS h cur)) mergedConfig ''settings'') blockName path newValue
       else newValue)"
  shows "case setStyle pv ctx path blockName sde nv ctx of
      Inl e \<Rightarrow> fst (setStyleS pvS mergedConfig path blockName sde newValue h cur) = Inl e
    | Inr ctx' \<Rightarrow>
        \<exists>r. fst (setStyleS pvS mergedConfig path blockName sde newValue h cur) = Inr r \<and>
          holds (user ctx')
            (snd (setStyleS pvS mergedConfig path blockName sde newValue h cur)) r"
proof (cases "deepClone (user ctx)")
  case (Inl e)
  with deepCloneS_refines [OF d hc] show ?thesis
    by (simp add: setStyle_def setUserConfig_def setStyleS_def)
next
  case (Inr c')
  with deepCloneS_refines [OF d hc] obtain t
    where s: "stringify (Suc (length h)) h cur = Inr (Some t)" and t: "jsonValue t = c'"
    by auto
  from deepCloneS_parsed [OF s] obtain r h1 where c: "deepCloneS h cur = (Inr r, h1)"
    by blast
  from hm have nm: "nullish (merged ctx) = (mergedConfig = RUndef \<or> mergedConfig = RNull)"
    by (cases "merged ctx") (auto simp: holds_JArr holds_JObj)
  show ?thesis
  proof (cases "sde \<and> nullish (merged ctx)")
    case True
    with nm c Inr show ?thesis
      by (simp add: setStyle_def setUserConfig_def setStyleS_def)
  next
    case False
    with nm have n': "\<not> (sde \<and> (mergedConfig = RUndef \<or> mergedConfig = RNull))" by simp
    from setStyleS_refines [where d = sde and pv = pvS and newValue = newValue
        and mergedConfig = mergedConfig and path = path and blockName = blockName
        and nv = "if sde then pv (getProp (merged ctx) ''settings'') blockName path nv else nv",
        OF s w n'] Inr t False
    show ?thesis
      by (cases "lodash_set c' (finalPath path blockName)
            (if sde then pv (getProp (merged ctx) ''settings'') blockName path nv else nv)")
        (auto simp: setStyle_def setUserConfig_def)
  qed
qed

text \<open>
  Claim C6. A write of \<^verbatim>\<open>setSetting\<close> or \<^verbatim>\<open>setStyle\<close> leaves every object that existed
  before it as it was: the store after the write, returned or thrown, begins with the
  store before it, whatever the current configuration, the path and the value. The copy
  that the write works on refers to new objects only, and when the current configuration
  is an object, the configuration the write returns is an object at a new address.

  The write does on the store what \<open>setSetting\<close> and \<open>setStyle\<close> of the first sections do
  on values. When the current configuration holds the user configuration of a context,
  it still holds it after the write. Moreover, in a store whose objects have each key
  once: the copy holds the JSON copy of that configuration (and the write throws when
  there is none); when the reference written holds the new value, the write throws
  exactly when the write on values throws, with the same error, and otherwise returns a
  reference that holds, in the store after the write, the user configuration that the
  write on values returns: the copy with the value set at the path. For \<open>setStyle\<close> with
  encoding, the merged view is held at its reference and the encoder on the store is
  assumed to return what holds the value of the encoder on values.
\<close>

theorem writes_leave_existing_objects:
  "unchanged h (snd (setSettingS propertyPath blockName newValue h currentConfig)) \<and>
   newObject h currentConfig (fst (setSettingS propertyPath blockName newValue h currentConfig)) \<and>
   unchanged h
     (snd (setStyleS pvS mergedConfig path blockName d newValue h currentConfig)) \<and>
   newObject h currentConfig
     (fst (setStyleS pvS mergedConfig path blockName d newValue h currentConfig)) \<and>
   closedFrom (length h) (snd (deepCloneS h currentConfig)) \<and>
   (holds (user ctx) h currentConfig \<longrightarrow>
      holds (user ctx) (snd (setSettingS propertyPath blockName newValue h currentConfig))
        currentConfig \<and>
      holds (user ctx)
        (snd (setStyleS pvS mergedConfig path blockName d newValue h currentConfig))
        currentConfig \<and>
      (distinctKeys h \<longrightarrow>
         (case deepClone (user ctx) of
            Inl e \<Rightarrow> fst (deepCloneS h currentConfig) = Inl e
          | Inr c \<Rightarrow>
              \<exists>r. fst (deepCloneS h currentConfig) = Inr r \<and>
                holds c (snd (deepCloneS h currentConfig)) r) \<and>
         (holds nv h newValue \<longrightarrow>
            (case setSetting propertyPath blockName nv ctx of
               Inl e \<Rightarrow> fst (setSettingS propertyPath blockName newValue h currentConfig) = Inl e
             | Inr ctx' \<Rightarrow>
                 \<exists>r. fst (setSettingS propertyPath blockName newValue h currentConfig) = Inr r \<and>
                   holds (user ctx')
                     (snd (setSettingS propertyPath blockName newValue h currentConfig)) r)) \<and>
         (holds (merged ctx) h mergedConfig \<and>
          holds (if d then pv (getProp (merged ctx) ''settings'') blockName path nv else nv) h
            (if d then pvS (snd (deepCloneS h currentConfig))
                        (getPropS (snd (deepCloneS h currentConfig)) mergedConfig ''settings'')
                        blockName path newValue
             else newValue) \<longrightarrow>
            (case setStyle pv ctx path blockName d nv ctx of
               Inl e \<Rightarrow>
                 fst (setStyleS pvS mergedConfig path blockName d newValue h currentConfig) = Inl e
             | Inr ctx' \<Rightarrow>
                 \<exists>r. fst (setStyleS pvS mergedConfig path blockName d newValue h currentConfig) =
                       Inr r \<and>
                   holds (user ctx')
                     (snd (setStyleS pvS mergedConfig path blockName d newValue h currentConfig))
                     r))))"
proof -
  have f1: "unchanged h (snd (setSettingS propertyPath blockName newValue h currentConfig)) \<and>
      newObject h currentConfig (fst (setSettingS propertyPath blockName newValue h currentConfig))"
    by (rule setSettingS_frame)
  have f2: "unchanged h
       (snd (setStyleS pvS mergedConfig path blockName d newValue h currentConfig)) \<and>
      newObject h currentConfig
       (fst (setStyleS pvS mergedConfig path blockName d newValue h currentConfig))"
    by (rule setStyleS_frame)
  have f3: "closedFrom (length h) (snd (deepCloneS h currentConfig))"
    using deepCloneS_frame [of h currentConfig "fst (deepCloneS h currentConfig)"
      "snd (deepCloneS h currentConfig)"]
    by simp
  have k1: "holds (user ctx) (snd (setSettingS propertyPath blockName newValue h currentConfig))
      currentConfig"
    if "holds (user ctx) h currentConfig"
    using that f1 by (blast intro: holds_frame)
  have k2: "holds (user ctx)
      (snd (setStyleS pvS mergedConfig path blockName d newValue h currentConfig)) currentConfig"
    if "holds (user ctx) h currentConfig"
    using that f2 by (blast intro: holds_frame)
  have a: "case deepClone (user ctx) of
        Inl e \<Rightarrow> fst (deepCloneS h currentConfig) = Inl e
      | Inr c \<Rightarrow>
          \<exists>r. fst (deepCloneS h currentConfig) = Inr r \<and>
            holds c (snd (deepCloneS h currentConfig)) r"
    if hc: "holds (user ctx) h currentConfig" and dk: "distinctKeys h"
  proof (cases "deepClone (user ctx)")
    case (Inl e)
    with deepCloneS_refines [OF dk hc] show ?thesis by simp
  next
    case (Inr c)
    with deepCloneS_refines [OF dk hc] obtain t
      where s: "stringify (Suc (length h)) h currentConfig = Inr (Some t)" and t: "jsonValue t = c"
      by auto
    from deepCloneS_parsed [OF s] t Inr show ?thesis
      by (auto dest: parsed_holds)
  qed
  have b: "case setSetting propertyPath blockName nv ctx of
        Inl e \<Rightarrow> fst (setSettingS propertyPath blockName newValue h currentConfig) = Inl e
      | Inr ctx' \<Rightarrow>
          \<exists>r. fst (setSettingS propertyPath blockName newValue h currentConfig) = Inr r \<and>
            holds (user ctx')
              (snd (setSettingS propertyPath blockName newValue h currentConfig)) r"
    if "holds (user ctx) h currentConfig" and "distinctKeys h" and "holds nv h newValue"
    using that(2,1,3) by (rule setSettingS_setSetting)
  have c: "case setStyle pv ctx path blockName d nv ctx of
        Inl e \<Rightarrow>
          fst (setStyleS pvS mergedConfig path blockName d newValue h currentConfig) = Inl e
      | Inr ctx' \<Rightarrow>
          \<exists>r. fst (setStyleS pvS mergedConfig path blockName d newValue h currentConfig) =
                Inr r \<and>
            holds (user ctx')
              (snd (setStyleS pvS mergedConfig path blockName d newValue h currentConfig))
              r"
    if "holds (user ctx) h currentConfig" and "distinctKeys h"
      and "holds (merged ctx) h mergedConfig"
      and "holds (if d then pv (getProp (merged ctx) ''settings'') blockName path nv else nv) h
            (if d then pvS (snd (deepCloneS h currentConfig))
                        (getPropS (snd (deepCloneS h currentConfig)) mergedConfig ''settings'')
                        blockName path newValue
             else newValue)"
    using that(2,1,3,4) by (rule setStyleS_setStyle)
  from f1 f2 f3 k1 k2 a b c show ?thesis by blast
qed

text \<open>
  On the example store: the write of a setting under \<^verbatim>\<open>color.palette.1.slug\<close> of a block,
  with the store it leaves, and the write of a style with encoding.
\<close>

theorem writes_leave_existing_objects_witness:
  "distinctKeys exampleCells \<and>
   holds (user exampleStoredContext) exampleCells (Ref 2) \<and>
   holds (merged exampleStoredContext) exampleCells (Ref 2) \<and>
   holds (JArr [JStr ''x'', JUndef]) exampleCells (Ref 3) \<and>
   setSettingS (Some ''color.palette.1.slug'') (Some ''core/button'') (Ref 3) exampleCells (Ref 2) =
     (Inr (Ref 6), exampleCells @
        [ObjCell [(''blocks'', Ref 7)],
         ObjCell [(''css'', RStr ''a{}'')],
         ObjCell [(''settings'', Ref 4), (''styles'', Ref 5)],
         ObjCell [(''core/button'', Ref 8)], ObjCell [(''color'', Ref 9)],
         ObjCell [(''palette'', Ref 10)], ArrCell [RUndef, Ref 11],
         ObjCell [(''slug'', Ref 3)]]) \<and>
   unchanged exampleCells
     (snd (setSettingS (Some ''color.palette.1.slug'') (Some ''core/button'') (Ref 3)
        exampleCells (Ref 2))) \<and>
   newObject exampleCells (Ref 2) (Inr (Ref 6)) \<and>
   holds exampleStored
     (snd (setSettingS (Some ''color.palette.1.slug'') (Some ''core/button'') (Ref 3)
        exampleCells (Ref 2))) (Ref 2) \<and>
   map_sum id user
     (setSetting (Some ''color.palette.1.slug'') (Some ''core/button'')
        (JArr [JStr ''x'', JUndef]) exampleStoredContext) = Inr exampleSettingWritten \<and>
   (\<exists>r. fst (setSettingS (Some ''color.palette.1.slug'') (Some ''core/button'') (Ref 3)
             exampleCells (Ref 2)) = Inr r \<and>
      holds exampleSettingWritten
        (snd (setSettingS (Some ''color.palette.1.slug'') (Some ''core/button'') (Ref 3)
           exampleCells (Ref 2))) r) \<and>
   map_sum id user
     (setStyle plainEncoder exampleStoredContext (Some ''css'') (Some ''core/button'') True
        (JArr [JStr ''x'', JUndef]) exampleStoredContext) = Inr exampleStyleWritten \<and>
   (\<exists>r. fst (setStyleS plainEncoderS (Ref 2) (Some ''css'') (Some ''core/button'') True (Ref 3)
             exampleCells (Ref 2)) = Inr r \<and>
      holds exampleStyleWritten
        (snd (setStyleS plainEncoderS (Ref 2) (Some ''css'') (Some ''core/button'') True (Ref 3)
           exampleCells (Ref 2))) r)"
proof -
  have dk: "distinctKeys exampleCells"
    by code_simp
  have hs: "holds exampleStored exampleCells (Ref 2)"
    by code_simp
  have u: "user exampleStoredContext = exampleStored"
    and m: "merged exampleStoredContext = exampleStored"
    by (simp_all add: exampleStoredContext_def)
  have hv: "holds (JArr [JStr ''x'', JUndef]) exampleCells (Ref 3)"
    by code_simp
  have e: "setSettingS (Some ''color.palette.1.slug'') (Some ''core/button'') (Ref 3)
      exampleCells (Ref 2) =
     (Inr (Ref 6), exampleCells @
        [ObjCell [(''blocks'', Ref 7)],
         ObjCell [(''css'', RStr ''a{}'')],
         ObjCell [(''settings'', Ref 4), (''styles'', Ref 5)],
         ObjCell [(''core/button'', Ref 8)], ObjCell [(''color'', Ref 9)],
         ObjCell [(''palette'', Ref 10)], ArrCell [RUndef, Ref 11],
         ObjCell [(''slug'', Ref 3)]])"
    by code_simp
  have v1: "map_sum id user
     (setSetting (Some ''color.palette.1.slug'') (Some ''core/button'')
        (JArr [JStr ''x'', JUndef]) exampleStoredContext) = Inr exampleSettingWritten"
    by code_simp
  have v2: "map_sum id user
     (setStyle plainEncoder exampleStoredContext (Some ''css'') (Some ''core/button'') True
        (JArr [JStr ''x'', JUndef]) exampleStoredContext) = Inr exampleStyleWritten"
    by code_simp
  from v1 obtain c1 where c1: "setSetting (Some ''color.palette.1.slug'') (Some ''core/button'')
        (JArr [JStr ''x'', JUndef]) exampleStoredContext = Inr c1"
    and uc1: "user c1 = exampleSettingWritten"
    by (cases "setSetting (Some ''color.palette.1.slug'') (Some ''core/button'')
        (JArr [JStr ''x'', JUndef]) exampleStoredContext") auto
  from v2 obtain c2 where c2: "setStyle plainEncoder exampleStoredContext (Some ''css'')
        (Some ''core/button'') True (JArr [JStr ''x'', JUndef]) exampleStoredContext = Inr c2"
    and uc2: "user c2 = exampleStyleWritten"
    by (cases "setStyle plainEncoder exampleStoredContext (Some ''css'')
        (Some ''core/button'') True (JArr [JStr ''x'', JUndef]) exampleStoredContext") auto
  have en: "holds
      (if True then plainEncoder (getProp (merged exampleStoredContext) ''settings'')
                      (Some ''core/button'') (Some ''css'') (JArr [JStr ''x'', JUndef])
       else JArr [JStr ''x'', JUndef]) exampleCells
      (if True then plainEncoderS (snd (deepCloneS exampleCells (Ref 2)))
                      (getPropS (snd (deepCloneS exampleCells (Ref 2))) (Ref 2) ''settings'')
                      (Some ''core/button'') (Some ''css'') (Ref 3)
       else Ref 3)"
    using hv by (simp add: plainEncoder_def plainEncoderS_def)
  note t = writes_leave_existing_objects
    [where h = exampleCells and propertyPath = "Some ''color.palette.1.slug''"
       and blockName = "Some ''core/button''" and newValue = "Ref 3" and currentConfig = "Ref 2"
       and pvS = plainEncoderS and mergedConfig = "Ref 2" and path = "Some ''css''" and d = True
       and ctx = exampleStoredContext and nv = "JArr [JStr ''x'', JUndef]" and pv = plainEncoder]
  from t have t1: "unchanged exampleCells
     (snd (setSettingS (Some ''color.palette.1.slug'') (Some ''core/button'') (Ref 3)
        exampleCells (Ref 2)))"
    and t2: "newObject exampleCells (Ref 2)
      (fst (setSettingS (Some ''color.palette.1.slug'') (Some ''core/button'') (Ref 3)
        exampleCells (Ref 2)))"
    by blast+
  from t hs u have t3: "holds exampleStored
     (snd (setSettingS (Some ''color.palette.1.slug'') (Some ''core/button'') (Ref 3)
        exampleCells (Ref 2))) (Ref 2)"
    by simp
  from t hs u dk hv have "case setSetting (Some ''color.palette.1.slug'') (Some ''core/button'')
        (JArr [JStr ''x'', JUndef]) exampleStoredContext of
      Inl e \<Rightarrow> fst (setSettingS (Some ''color.palette.1.slug'') (Some ''core/button'') (Ref 3)
             exampleCells (Ref 2)) = Inl e
    | Inr ctx' \<Rightarrow> \<exists>r. fst (setSettingS (Some ''color.palette.1.slug'') (Some ''core/button'') (Ref 3)
             exampleCells (Ref 2)) = Inr r \<and>
          holds (user ctx')
            (snd (setSettingS (Some ''color.palette.1.slug'') (Some ''core/button'') (Ref 3)
               exampleCells (Ref 2))) r"
    by simp
  then have t4: "\<exists>r. fst (setSettingS (Some ''color.palette.1.slug'') (Some ''core/button'') (Ref 3)
             exampleCells (Ref 2)) = Inr r \<and>
      holds exampleSettingWritten
        (snd (setSettingS (Some ''color.palette.1.slug'') (Some ''core/button'') (Ref 3)
           exampleCells (Ref 2))) r"
    by (simp add: c1 uc1)
  from t hs u m dk en have "case setStyle plainEncoder exampleStoredContext (Some ''css'')
        (Some ''core/button'') True (JArr [JStr ''x'', JUndef]) exampleStoredContext of
      Inl e \<Rightarrow> fst (setStyleS plainEncoderS (Ref 2) (Some ''css'') (Some ''core/button'') True (Ref 3)
             exampleCells (Ref 2)) = Inl e
    | Inr ctx' \<Rightarrow> \<exists>r. fst (setStyleS plainEncoderS (Ref 2) (Some ''css'') (Some ''core/button'') True
             (Ref 3) exampleCells (Ref 2)) = Inr r \<and>
          holds (user ctx')
            (snd (setStyleS plainEncoderS (Ref 2) (Some ''css'') (Some ''core/button'') True (Ref 3)
               exampleCells (Ref 2))) r"
    by simp
  then have t5: "\<exists>r. fst (setStyleS plainEncoderS (Ref 2) (Some ''css'') (Some ''core/button'') True
             (Ref 3) exampleCells (Ref 2)) = Inr r \<and>
      holds exampleStyleWritten
        (snd (setStyleS plainEncoderS (Ref 2) (Some ''css'') (Some ''core/button'') True (Ref 3)
           exampleCells (Ref 2))) r"
    by (simp add: c2 uc2)
  from e t2 have t2': "newObject exampleCells (Ref 2) (Inr (Ref 6))" by simp
  from dk hs hv u m e t1 t2' t3 v1 t4 v2 t5 show ?thesis
    by (simp only: simp_thms)
qed

end
